theory Spec2Isabelle
  imports Main "HOL-Library.Word" "HOL-Library.AList"
begin

section \<open>The glob trie of \<^verbatim>\<open>pkg/htrie/glob_path_node.go\<close>\<close>

text \<open>
  A Go \<^verbatim>\<open>byte\<close> is an unsigned 8-bit word and a Go \<^verbatim>\<open>string\<close> is indexed by
  bytes. The trie nodes are heap objects reached through pointers
  (\<^verbatim>\<open>*globPathNode\<close>); \<^verbatim>\<open>addPath\<close> mutates them in place and \<^verbatim>\<open>oneShot\<close>
  aliases an entry of \<^verbatim>\<open>subtrees\<close>. The embedding therefore keeps an explicit
  store: the list of all allocated nodes, a pointer being the index of its
  node. \<^verbatim>\<open>nil\<close> pointers and the \<^verbatim>\<open>nil\<close> map are \<open>None\<close>. A map
  \<^verbatim>\<open>map[byte]*globPathNode\<close> is an association list with distinct keys,
  \<^verbatim>\<open>len\<close> being its length; the values it holds are pointers to nodes,
  never \<^verbatim>\<open>nil\<close>, as in every map the code writes. Go has no dangling
  pointers: in the stores that \<^verbatim>\<open>addPath\<close> builds every address lies below
  the length of the list (\<open>inv_valid\<close> below). Indices and lengths of strings
  are natural numbers; they come from \<^verbatim>\<open>0\<close>, \<^verbatim>\<open>len(s)\<close> and \<^verbatim>\<open>i + 1\<close>
  only, far from the bounds of \<^verbatim>\<open>int\<close>.
\<close>

type_synonym byte = "8 word"

type_synonym addr = nat

definition globChar :: byte where
  "globChar = 1"

record globPathNode =
  subtrees :: "(byte \<times> addr) list option"
  oneShot :: "addr option"
  isGlob :: bool
  canMatch :: bool
  hasGlobChild :: bool
  nodeChar :: byte
  icase :: bool

type_synonym heap = "globPathNode list"

text \<open>The single error value \<^verbatim>\<open>addPath\<close> returns.\<close>

datatype error = NilSubtrees

text \<open>
  \<^verbatim>\<open>newGlobPathNode(icase)\<close> allocates a node whose map is empty but not
  \<^verbatim>\<open>nil\<close>; every other field has Go's zero value. It returns the store with
  the new node and the pointer to it.
\<close>

definition newGlobPathNode :: "heap \<Rightarrow> bool \<Rightarrow> heap \<times> addr" where
  "newGlobPathNode h ic =
     (h @ [\<lparr>subtrees = Some [], oneShot = None, isGlob = False, canMatch = False,
            hasGlobChild = False, nodeChar = 0, icase = ic\<rparr>], length h)"

text \<open>
  \<^verbatim>\<open>if gpn.icase && 'A' <= part && part <= 'Z' { part = part + 32 }\<close>,
  with \<^verbatim>\<open>'A'\<close> = 65 and \<^verbatim>\<open>'Z'\<close> = 90.
\<close>

definition foldCase :: "bool \<Rightarrow> byte \<Rightarrow> byte" where
  "foldCase ic part = (if ic \<and> 65 \<le> part \<and> part \<le> 90 then part + 32 else part)"

text \<open>
  The Go expression \<^verbatim>\<open>n.subtrees[k]\<close>: reading a \<^verbatim>\<open>nil\<close> map finds nothing.
\<close>

definition subtreeAt :: "heap \<Rightarrow> addr \<Rightarrow> byte \<Rightarrow> addr option" where
  "subtreeAt h a k = (case subtrees (h ! a) of None \<Rightarrow> None | Some m \<Rightarrow> map_of m k)"

subsection \<open>addPath\<close>

text \<open>
  One iteration of the loop of \<^verbatim>\<open>addPath\<close>, for the byte \<open>b = s[i]\<close>, with
  \<^verbatim>\<open>'*'\<close> = 42. It returns the new store and the new \<^verbatim>\<open>curnode\<close>. Assigning
  into a \<^verbatim>\<open>nil\<close> map panics in Go: that is the result \<open>None\<close>. The stores
  \<open>h1\<close> to \<open>h4\<close> follow the assignments of the source in their order, each
  reading the store the one before it left: the new child, \<^verbatim>\<open>nodeChar\<close>,
  \<^verbatim>\<open>oneShot\<close> from \<^verbatim>\<open>len(subt)\<close>, and the two flags of a wildcard. The loop
  runs over the bytes of \<open>s\<close> from first to last.
\<close>

definition addPath_body :: "heap \<Rightarrow> addr \<Rightarrow> addr \<Rightarrow> byte \<Rightarrow> (heap \<times> addr) option" where
  "addPath_body h gpn curnode b =
     (let part = foldCase (icase (h ! gpn)) b;
          c = (if part = 42 then globChar else part)
      in case subtrees (h ! curnode) of
           None \<Rightarrow> None
         | Some subt \<Rightarrow>
             let (h1, v) =
                   (case map_of subt c of
                      Some v \<Rightarrow> (h, v)
                    | None \<Rightarrow>
                        (let (h0, n) = newGlobPathNode h (icase (h ! gpn))
                         in (h0[curnode := (h0 ! curnode)
                                  \<lparr>subtrees := Some (AList.update c n subt)\<rparr>], n)));
                 h2 = h1[v := (h1 ! v)\<lparr>nodeChar := part\<rparr>];
                 h3 = h2[curnode := (h2 ! curnode)
                        \<lparr>oneShot := (case subtrees (h2 ! curnode) of
                                       None \<Rightarrow> None
                                     | Some subt' \<Rightarrow> if length subt' = 1 then Some v else None)\<rparr>];
                 h4 = (if part = 42
                       then (let h5 = h3[curnode := (h3 ! curnode)\<lparr>hasGlobChild := True\<rparr>]
                             in h5[v := (h5 ! v)\<lparr>isGlob := True\<rparr>])
                       else h3)
             in Some (h4, v))"

fun addPath_loop :: "heap \<Rightarrow> addr \<Rightarrow> addr \<Rightarrow> byte list \<Rightarrow> (heap \<times> addr) option" where
  "addPath_loop h gpn curnode [] = Some (h, curnode)"
| "addPath_loop h gpn curnode (b # s) =
     (case addPath_body h gpn curnode b of
        None \<Rightarrow> None
      | Some (h', v) \<Rightarrow> addPath_loop h' gpn v s)"

text \<open>
  \<^verbatim>\<open>addPath\<close> returns Go's \<^verbatim>\<open>error\<close> (\<open>None\<close> for \<^verbatim>\<open>nil\<close>) together with
  the store it leaves behind; the outer \<open>None\<close> is a run-time panic.
\<close>

definition addPath :: "heap \<Rightarrow> addr \<Rightarrow> byte list \<Rightarrow> (error option \<times> heap) option" where
  "addPath h gpn s =
     (if subtrees (h ! gpn) = None then Some (Some NilSubtrees, h)
      else case addPath_loop h gpn gpn s of
             None \<Rightarrow> None
           | Some (h', curnode) \<Rightarrow>
               Some (None, h'[curnode := (h' ! curnode)\<lparr>canMatch := True\<rparr>]))"

subsection \<open>checkPath and globConsume\<close>

text \<open>
  The loops of \<^verbatim>\<open>checkPath\<close> and \<^verbatim>\<open>globConsume\<close> are recursive functions of
  the loop index \<open>i\<close> and the loop variables. The result \<open>None\<close> is a run-time
  panic: \<^verbatim>\<open>s[i]\<close> out of range, or a \<^verbatim>\<open>nil\<close> pointer dereferenced. Where
  the source returns \<^verbatim>\<open>true\<close> if a call does and goes on otherwise, the model
  has the three cases of the call's result: panic, \<^verbatim>\<open>true\<close>, and the rest of
  the iteration. A \<^verbatim>\<open>continue\<close> is the recursive call at \<open>i + 1\<close>.
\<close>

function checkPath_loop :: "heap \<Rightarrow> addr \<Rightarrow> addr \<Rightarrow> byte list \<Rightarrow> nat \<Rightarrow> nat \<Rightarrow> bool option"
  and globConsume :: "heap \<Rightarrow> addr \<Rightarrow> byte list \<Rightarrow> nat \<Rightarrow> nat \<Rightarrow> bool option"
  and globConsume_loop ::
    "heap \<Rightarrow> addr \<Rightarrow> bool \<Rightarrow> bool \<Rightarrow> byte list \<Rightarrow> nat \<Rightarrow> nat \<Rightarrow> bool option"
where
  "checkPath_loop h gpn curnode s i mlen =
     (if i < mlen then
        (if length s \<le> i then None
         else
           let part = foldCase (icase (h ! gpn)) (s ! i) in
           case (if hasGlobChild (h ! curnode)
                 then (case subtreeAt h curnode globChar of
                         Some v \<Rightarrow> globConsume h v s i mlen
                       | None \<Rightarrow> Some False)
                 else Some False) of
             None \<Rightarrow> None
           | Some True \<Rightarrow> Some True
           | Some False \<Rightarrow>
               (case oneShot (h ! curnode) of
                  Some os \<Rightarrow>
                    if nodeChar (h ! os) = globChar then Some False
                    else if nodeChar (h ! os) = part
                         then checkPath_loop h gpn os s (i + 1) mlen
                         else Some False
                | None \<Rightarrow>
                    (case subtreeAt h curnode part of
                       None \<Rightarrow> Some False
                     | Some v \<Rightarrow> checkPath_loop h gpn v s (i + 1) mlen)))
      else Some (canMatch (h ! curnode) \<or> isGlob (h ! curnode)))"
| "globConsume h gpn s index mlen =
     (if canMatch (h ! gpn) then Some True
      else globConsume_loop h gpn (oneShot (h ! gpn) \<noteq> None) (oneShot (h ! gpn) \<noteq> None)
             s index mlen)"
| "globConsume_loop h gpn oneShotLookahead oneShotStep s i mlen =
     (if i < mlen then
        (if length s \<le> i then None
         else
           let part = foldCase (icase (h ! gpn)) (s ! i) in
           case (if oneShotStep
                 then (case oneShot (h ! gpn) of
                         None \<Rightarrow> None
                       | Some os \<Rightarrow> Some (part \<noteq> nodeChar (h ! os)))
                 else Some False) of
             None \<Rightarrow> None
           | Some True \<Rightarrow> globConsume_loop h gpn oneShotLookahead True s (i + 1) mlen
           | Some False \<Rightarrow>
               (case (case subtreeAt h gpn part of
                        Some v \<Rightarrow> checkPath_loop h v v s (i + 1) mlen
                      | None \<Rightarrow> Some False) of
                  None \<Rightarrow> None
                | Some True \<Rightarrow> Some True
                | Some False \<Rightarrow>
                    if i = mlen - 1 then Some (canMatch (h ! gpn))
                    else globConsume_loop h gpn oneShotLookahead oneShotLookahead
                           s (i + 1) mlen))
      else Some False)"
  by pat_completeness auto

termination
  by (relation "measure (\<lambda>x. case x of
         Inl (h, gpn, curnode, s, i, mlen) \<Rightarrow> 3 * (mlen - i) + 2
       | Inr (Inl (h, gpn, s, i, mlen)) \<Rightarrow> 3 * (mlen - i) + 1
       | Inr (Inr (h, gpn, la, st, s, i, mlen)) \<Rightarrow> 3 * (mlen - i))") auto

definition checkPath :: "heap \<Rightarrow> addr \<Rightarrow> byte list \<Rightarrow> nat \<Rightarrow> nat \<Rightarrow> bool option" where
  "checkPath h gpn s index mlen = checkPath_loop h gpn gpn s index mlen"

subsection \<open>Building a trie\<close>

text \<open>
  A string literal as the bytes of a Go string, and the way a trie is built:
  \<^verbatim>\<open>newGlobPathNode\<close> allocates the root in an empty store (address 0), and
  the patterns are added in order with \<^verbatim>\<open>addPath\<close>. \<open>build\<close> is \<open>None\<close>
  when a call returns an error or panics. The callers of \<^verbatim>\<open>checkPath\<close> pass
  the whole candidate: \<^verbatim>\<open>checkPath(s, 0, len(s))\<close>.
\<close>

definition bytes :: "string \<Rightarrow> byte list" where
  "bytes cs = map (\<lambda>c. of_nat (of_char c)) cs"

fun addPaths :: "heap \<Rightarrow> addr \<Rightarrow> byte list list \<Rightarrow> heap option" where
  "addPaths h gpn [] = Some h"
| "addPaths h gpn (p # ps) =
     (case addPath h gpn p of
        Some (None, h') \<Rightarrow> addPaths h' gpn ps
      | _ \<Rightarrow> None)"

definition build :: "bool \<Rightarrow> byte list list \<Rightarrow> heap option" where
  "build ic ps = addPaths (fst (newGlobPathNode [] ic)) 0 ps"

subsection \<open>Invariants of the store\<close>

text \<open>The key under which \<^verbatim>\<open>addPath\<close> files the byte \<open>b\<close> of a pattern.\<close>

definition pathKey :: "bool \<Rightarrow> byte \<Rightarrow> byte" where
  "pathKey ic b = (if foldCase ic b = 42 then globChar else foldCase ic b)"

text \<open>
  Every node has a map (not \<^verbatim>\<open>nil\<close>) with distinct keys, and every child was
  allocated after its parent and lies in the store.
\<close>

definition inv_valid :: "heap \<Rightarrow> bool" where
  "inv_valid h \<longleftrightarrow>
     (\<forall>a<length h. \<exists>m. subtrees (h ! a) = Some m \<and> distinct (map fst m) \<and>
        (\<forall>k b. map_of m k = Some b \<longrightarrow> a < b \<and> b < length h))"

text \<open>\<^verbatim>\<open>oneShot\<close> is the child of the only entry of the map, or \<^verbatim>\<open>nil\<close>.\<close>

definition inv_oneShot :: "heap \<Rightarrow> bool" where
  "inv_oneShot h \<longleftrightarrow>
     (\<forall>a<length h. oneShot (h ! a) =
        (case subtrees (h ! a) of Some [(k, b)] \<Rightarrow> Some b | _ \<Rightarrow> None))"

text \<open>No node is the child of two entries: the trie owns its nodes.\<close>

definition inv_noshare :: "heap \<Rightarrow> bool" where
  "inv_noshare h \<longleftrightarrow>
     (\<forall>a<length h. \<forall>a'<length h. \<forall>k k' b.
        subtreeAt h a k = Some b \<and> subtreeAt h a' k' = Some b \<longrightarrow> a = a' \<and> k = k')"

text \<open>A child filed under a key other than the sentinel carries that key as \<^verbatim>\<open>nodeChar\<close>.\<close>

definition inv_nodeChar :: "heap \<Rightarrow> bool" where
  "inv_nodeChar h \<longleftrightarrow>
     (\<forall>a<length h. \<forall>k b. subtreeAt h a k = Some b \<and> k \<noteq> globChar \<longrightarrow> nodeChar (h ! b) = k)"

text \<open>All nodes of a trie agree on the case mode.\<close>

definition inv_icase :: "bool \<Rightarrow> heap \<Rightarrow> bool" where
  "inv_icase ic h \<longleftrightarrow> (\<forall>a<length h. icase (h ! a) = ic)"

text \<open>
  How the loop of \<^verbatim>\<open>addPath\<close> changes a store: it only grows, it keeps every
  edge, every new edge leads to a new node, and no \<^verbatim>\<open>canMatch\<close> changes.
\<close>

definition ext :: "heap \<Rightarrow> heap \<Rightarrow> bool" where
  "ext h h' \<longleftrightarrow> length h \<le> length h' \<and>
     (\<forall>a<length h. \<forall>k b. subtreeAt h a k = Some b \<longrightarrow> subtreeAt h' a k = Some b) \<and>
     (\<forall>a<length h'. \<forall>k b. subtreeAt h' a k = Some b \<longrightarrow>
        (a < length h \<and> subtreeAt h a k = Some b) \<or> length h \<le> b) \<and>
     (\<forall>a<length h'. canMatch (h' ! a) = (a < length h \<and> canMatch (h ! a)))"

definition inv_trie :: "bool \<Rightarrow> heap \<Rightarrow> bool" where
  "inv_trie ic h \<longleftrightarrow>
     h \<noteq> [] \<and> inv_valid h \<and> inv_noshare h \<and> inv_oneShot h \<and> inv_nodeChar h \<and> inv_icase ic h"

text \<open>The node reached from \<open>a\<close> along the keys \<open>ks\<close>, if there is one.\<close>

fun walk :: "heap \<Rightarrow> addr \<Rightarrow> byte list \<Rightarrow> addr option" where
  "walk h a [] = Some a"
| "walk h a (k # ks) = (case subtreeAt h a k of None \<Rightarrow> None | Some b \<Rightarrow> walk h b ks)"

text \<open>A trie without wildcards: no flag of a wildcard and no edge under the sentinel.\<close>

definition inv_noglob :: "heap \<Rightarrow> bool" where
  "inv_noglob h \<longleftrightarrow>
     (\<forall>a<length h. \<not> hasGlobChild (h ! a) \<and> \<not> isGlob (h ! a) \<and> subtreeAt h a globChar = None)"

text \<open>The patterns a trie holds literally: the walks from the root that end on \<^verbatim>\<open>canMatch\<close>.\<close>

definition accepts :: "heap \<Rightarrow> byte list \<Rightarrow> bool" where
  "accepts h w \<longleftrightarrow> (case walk h 0 w of Some t \<Rightarrow> canMatch (h ! t) | None \<Rightarrow> False)"

text \<open>What a whole \<^verbatim>\<open>addPath\<close> keeps: the edges and the \<^verbatim>\<open>canMatch\<close> flags already set.\<close>

definition grows :: "heap \<Rightarrow> heap \<Rightarrow> bool" where
  "grows h h' \<longleftrightarrow> length h \<le> length h' \<and>
     (\<forall>a<length h. \<forall>k b. subtreeAt h a k = Some b \<longrightarrow> subtreeAt h' a k = Some b) \<and>
     (\<forall>a<length h. canMatch (h ! a) \<longrightarrow> canMatch (h' ! a))"

subsection \<open>Parts of the loop bodies\<close>

text \<open>
  The parts of one iteration of \<^verbatim>\<open>checkPath\<close> and of \<^verbatim>\<open>globConsume\<close>, named
  for the proofs: the attempt on the wildcard child, the literal successor
  (fast path or keyed lookup), the skip of the one-shot lookahead, and the
  resumed descent.
\<close>

definition globTry :: "heap \<Rightarrow> addr \<Rightarrow> byte list \<Rightarrow> nat \<Rightarrow> nat \<Rightarrow> bool option" where
  "globTry h curnode s i mlen =
     (if hasGlobChild (h ! curnode)
      then (case subtreeAt h curnode globChar of
              Some v \<Rightarrow> globConsume h v s i mlen
            | None \<Rightarrow> Some False)
      else Some False)"

definition nextNode :: "heap \<Rightarrow> addr \<Rightarrow> byte \<Rightarrow> addr option" where
  "nextNode h curnode part =
     (case oneShot (h ! curnode) of
        Some os \<Rightarrow>
          if nodeChar (h ! os) = globChar then None
          else if nodeChar (h ! os) = part then Some os else None
      | None \<Rightarrow> subtreeAt h curnode part)"

definition skipStep :: "heap \<Rightarrow> addr \<Rightarrow> bool \<Rightarrow> byte \<Rightarrow> bool option" where
  "skipStep h gpn oneShotStep part =
     (if oneShotStep
      then (case oneShot (h ! gpn) of
              None \<Rightarrow> None
            | Some os \<Rightarrow> Some (part \<noteq> nodeChar (h ! os)))
      else Some False)"

definition follow :: "heap \<Rightarrow> addr \<Rightarrow> byte \<Rightarrow> byte list \<Rightarrow> nat \<Rightarrow> nat \<Rightarrow> bool option" where
  "follow h gpn part s i mlen =
     (case subtreeAt h gpn part of
        Some v \<Rightarrow> checkPath_loop h v v s (i + 1) mlen
      | None \<Rightarrow> Some False)"

subsection \<open>The queries without the fast path, and with the store threaded\<close>

text \<open>
  The variant of the design notes, written from the spec's words: \<^verbatim>\<open>checkPath\<close>
  without the single-child fast path (the block on \<^verbatim>\<open>curnode.oneShot\<close>), so
  that every step falls back to the keyed lookup in \<^verbatim>\<open>subtrees\<close>. Wildcard
  consumption is unchanged, but resumes with the variant.
\<close>

function checkPathKeyed_loop ::
    "heap \<Rightarrow> addr \<Rightarrow> addr \<Rightarrow> byte list \<Rightarrow> nat \<Rightarrow> nat \<Rightarrow> bool option"
  and globConsumeKeyed :: "heap \<Rightarrow> addr \<Rightarrow> byte list \<Rightarrow> nat \<Rightarrow> nat \<Rightarrow> bool option"
  and globConsumeKeyed_loop ::
    "heap \<Rightarrow> addr \<Rightarrow> bool \<Rightarrow> bool \<Rightarrow> byte list \<Rightarrow> nat \<Rightarrow> nat \<Rightarrow> bool option"
where
  "checkPathKeyed_loop h gpn curnode s i mlen =
     (if i < mlen then
        (if length s \<le> i then None
         else
           let part = foldCase (icase (h ! gpn)) (s ! i) in
           case (if hasGlobChild (h ! curnode)
                 then (case subtreeAt h curnode globChar of
                         Some v \<Rightarrow> globConsumeKeyed h v s i mlen
                       | None \<Rightarrow> Some False)
                 else Some False) of
             None \<Rightarrow> None
           | Some True \<Rightarrow> Some True
           | Some False \<Rightarrow>
               (case subtreeAt h curnode part of
                  None \<Rightarrow> Some False
                | Some v \<Rightarrow> checkPathKeyed_loop h gpn v s (i + 1) mlen))
      else Some (canMatch (h ! curnode) \<or> isGlob (h ! curnode)))"
| "globConsumeKeyed h gpn s index mlen =
     (if canMatch (h ! gpn) then Some True
      else globConsumeKeyed_loop h gpn (oneShot (h ! gpn) \<noteq> None) (oneShot (h ! gpn) \<noteq> None)
             s index mlen)"
| "globConsumeKeyed_loop h gpn oneShotLookahead oneShotStep s i mlen =
     (if i < mlen then
        (if length s \<le> i then None
         else
           let part = foldCase (icase (h ! gpn)) (s ! i) in
           case (if oneShotStep
                 then (case oneShot (h ! gpn) of
                         None \<Rightarrow> None
                       | Some os \<Rightarrow> Some (part \<noteq> nodeChar (h ! os)))
                 else Some False) of
             None \<Rightarrow> None
           | Some True \<Rightarrow> globConsumeKeyed_loop h gpn oneShotLookahead True s (i + 1) mlen
           | Some False \<Rightarrow>
               (case (case subtreeAt h gpn part of
                        Some v \<Rightarrow> checkPathKeyed_loop h v v s (i + 1) mlen
                      | None \<Rightarrow> Some False) of
                  None \<Rightarrow> None
                | Some True \<Rightarrow> Some True
                | Some False \<Rightarrow>
                    if i = mlen - 1 then Some (canMatch (h ! gpn))
                    else globConsumeKeyed_loop h gpn oneShotLookahead oneShotLookahead
                           s (i + 1) mlen))
      else Some False)"
  by pat_completeness auto

termination
  by (relation "measure (\<lambda>x. case x of
         Inl (h, gpn, curnode, s, i, mlen) \<Rightarrow> 3 * (mlen - i) + 2
       | Inr (Inl (h, gpn, s, i, mlen)) \<Rightarrow> 3 * (mlen - i) + 1
       | Inr (Inr (h, gpn, la, st, s, i, mlen)) \<Rightarrow> 3 * (mlen - i))") auto

definition checkPathKeyed :: "heap \<Rightarrow> addr \<Rightarrow> byte list \<Rightarrow> nat \<Rightarrow> nat \<Rightarrow> bool option" where
  "checkPathKeyed h gpn s index mlen = checkPathKeyed_loop h gpn gpn s index mlen"

text \<open>
  The same two functions with the store threaded through every call and handed
  back with the result, as a frame for the question whether a query writes to
  the trie. Each statement of the source is a read (indexing a Go map, also a
  missing key, inserts nothing), so every return hands back the store it holds.
\<close>

function checkPathSt_loop ::
    "heap \<Rightarrow> addr \<Rightarrow> addr \<Rightarrow> byte list \<Rightarrow> nat \<Rightarrow> nat \<Rightarrow> bool option \<times> heap"
  and globConsumeSt :: "heap \<Rightarrow> addr \<Rightarrow> byte list \<Rightarrow> nat \<Rightarrow> nat \<Rightarrow> bool option \<times> heap"
  and globConsumeSt_loop ::
    "heap \<Rightarrow> addr \<Rightarrow> bool \<Rightarrow> bool \<Rightarrow> byte list \<Rightarrow> nat \<Rightarrow> nat \<Rightarrow> bool option \<times> heap"
where
  "checkPathSt_loop h gpn curnode s i mlen =
     (if i < mlen then
        (if length s \<le> i then (None, h)
         else
           let part = foldCase (icase (h ! gpn)) (s ! i) in
           case (if hasGlobChild (h ! curnode)
                 then (case subtreeAt h curnode globChar of
                         Some v \<Rightarrow> globConsumeSt h v s i mlen
                       | None \<Rightarrow> (Some False, h))
                 else (Some False, h)) of
             (None, h1) \<Rightarrow> (None, h1)
           | (Some True, h1) \<Rightarrow> (Some True, h1)
           | (Some False, h1) \<Rightarrow>
               (case oneShot (h1 ! curnode) of
                  Some os \<Rightarrow>
                    if nodeChar (h1 ! os) = globChar then (Some False, h1)
                    else if nodeChar (h1 ! os) = part
                         then checkPathSt_loop h1 gpn os s (i + 1) mlen
                         else (Some False, h1)
                | None \<Rightarrow>
                    (case subtreeAt h1 curnode part of
                       None \<Rightarrow> (Some False, h1)
                     | Some v \<Rightarrow> checkPathSt_loop h1 gpn v s (i + 1) mlen)))
      else (Some (canMatch (h ! curnode) \<or> isGlob (h ! curnode)), h))"
| "globConsumeSt h gpn s index mlen =
     (if canMatch (h ! gpn) then (Some True, h)
      else globConsumeSt_loop h gpn (oneShot (h ! gpn) \<noteq> None) (oneShot (h ! gpn) \<noteq> None)
             s index mlen)"
| "globConsumeSt_loop h gpn oneShotLookahead oneShotStep s i mlen =
     (if i < mlen then
        (if length s \<le> i then (None, h)
         else
           let part = foldCase (icase (h ! gpn)) (s ! i) in
           case (if oneShotStep
                 then (case oneShot (h ! gpn) of
                         None \<Rightarrow> None
                       | Some os \<Rightarrow> Some (part \<noteq> nodeChar (h ! os)))
                 else Some False) of
             None \<Rightarrow> (None, h)
           | Some True \<Rightarrow> globConsumeSt_loop h gpn oneShotLookahead True s (i + 1) mlen
           | Some False \<Rightarrow>
               (case (case subtreeAt h gpn part of
                        Some v \<Rightarrow> checkPathSt_loop h v v s (i + 1) mlen
                      | None \<Rightarrow> (Some False, h)) of
                  (None, h1) \<Rightarrow> (None, h1)
                | (Some True, h1) \<Rightarrow> (Some True, h1)
                | (Some False, h1) \<Rightarrow>
                    if i = mlen - 1 then (Some (canMatch (h1 ! gpn)), h1)
                    else globConsumeSt_loop h1 gpn oneShotLookahead oneShotLookahead
                           s (i + 1) mlen))
      else (Some False, h))"
  by pat_completeness auto

termination
  by (relation "measure (\<lambda>x. case x of
         Inl (h, gpn, curnode, s, i, mlen) \<Rightarrow> 3 * (mlen - i) + 2
       | Inr (Inl (h, gpn, s, i, mlen)) \<Rightarrow> 3 * (mlen - i) + 1
       | Inr (Inr (h, gpn, la, st, s, i, mlen)) \<Rightarrow> 3 * (mlen - i))") auto

definition checkPathSt :: "heap \<Rightarrow> addr \<Rightarrow> byte list \<Rightarrow> nat \<Rightarrow> nat \<Rightarrow> bool option \<times> heap" where
  "checkPathSt h gpn s index mlen = checkPathSt_loop h gpn gpn s index mlen"

text \<open>
  The measure of a call of the three mutually recursive functions: three times
  the unconsumed length, plus the rank of the function.
\<close>

definition callMeasure ::
  "(heap \<times> addr \<times> addr \<times> byte list \<times> nat \<times> nat) +
   (heap \<times> addr \<times> byte list \<times> nat \<times> nat) +
   (heap \<times> addr \<times> bool \<times> bool \<times> byte list \<times> nat \<times> nat) \<Rightarrow> nat" where
  "callMeasure x =
     (case x of
        Inl (h, gpn, curnode, s, i, mlen) \<Rightarrow> 3 * (mlen - i) + 2
      | Inr (Inl (h, gpn, s, i, mlen)) \<Rightarrow> 3 * (mlen - i) + 1
      | Inr (Inr (h, gpn, la, st, s, i, mlen)) \<Rightarrow> 3 * (mlen - i))"

subsection \<open>Changes of ASCII case\<close>

text \<open>
  A change of ASCII case, stated on the letters themselves and not through
  \<open>foldCase\<close>: two bytes are the same letter when they are equal, or are the
  upper-case and the lower-case form of one of the 26 letters; two strings are
  case variants of each other when they are so byte by byte.
\<close>

definition upperLetters :: "byte list" where
  "upperLetters = bytes ''ABCDEFGHIJKLMNOPQRSTUVWXYZ''"

definition lowerLetters :: "byte list" where
  "lowerLetters = bytes ''abcdefghijklmnopqrstuvwxyz''"

definition sameLetter :: "byte \<Rightarrow> byte \<Rightarrow> bool" where
  "sameLetter a b \<longleftrightarrow>
     a = b \<or> (a, b) \<in> set (zip upperLetters lowerLetters) \<or>
     (b, a) \<in> set (zip upperLetters lowerLetters)"

definition caseVariant :: "byte list \<Rightarrow> byte list \<Rightarrow> bool" where
  "caseVariant s t = list_all2 sameLetter s t"

section \<open>The signature codec\<close>

text \<open>
  Modelled from the spec: the signature codec. Its code (package
  \<^verbatim>\<open>encoding\<close>, of which the test helper \<^verbatim>\<open>makeReq\<close> calls
  \<^verbatim>\<open>B64EncodeURL\<close>) is not among the source files. From the spec: a token is
  the pair of an authentication tag and the encoded target URL, both in a
  URL-safe representation without padding; \<open>encode\<close> is a function of the key
  and the URL; \<open>decode\<close> first rejects a token that is not well formed, then
  recomputes the tag from the key and the embedded encoded URL, rejects a tag
  that does not match, and otherwise returns the URL. The keyed MAC is a
  parameter \<open>mac\<close>, and so is the URL-safe encoding \<open>enc\<close> with its decoder
  \<open>dec\<close>; the comparison in constant time is not modelled.
\<close>

datatype decodeError = MalformedToken | InvalidSignature

record token =
  tokenTag :: "byte list"
  tokenURL :: "byte list"

definition encode ::
    "(byte list \<Rightarrow> byte list \<Rightarrow> byte list) \<Rightarrow> (byte list \<Rightarrow> byte list) \<Rightarrow>
     byte list \<Rightarrow> byte list \<Rightarrow> token" where
  "encode mac enc key targetURL =
     (let e = enc targetURL in \<lparr>tokenTag = enc (mac key e), tokenURL = e\<rparr>)"

definition decode ::
    "(byte list \<Rightarrow> byte list \<Rightarrow> byte list) \<Rightarrow> (byte list \<Rightarrow> byte list option) \<Rightarrow>
     byte list \<Rightarrow> token \<Rightarrow> decodeError + byte list" where
  "decode mac dec key t =
     (case dec (tokenTag t) of
        None \<Rightarrow> Inl MalformedToken
      | Some tg \<Rightarrow>
          (case dec (tokenURL t) of
             None \<Rightarrow> Inl MalformedToken
           | Some u \<Rightarrow> if tg = mac key (tokenURL t) then Inr u else Inl InvalidSignature))"

text \<open>
  Modelled from the spec: a URL-safe encoding without padding, here unpadded
  base64 over the alphabet \<^verbatim>\<open>A-Z a-z 0-9 - _\<close>, the encoding the name
  \<^verbatim>\<open>B64EncodeURL\<close> stands for. Three bytes give four sextets; a rest of one
  or two bytes gives two or three.
\<close>

definition b64alphabet :: "byte list" where
  "b64alphabet = bytes ''ABCDEFGHIJKLMNOPQRSTUVWXYZabcdefghijklmnopqrstuvwxyz0123456789-_''"

fun sextets :: "byte list \<Rightarrow> nat list" where
  "sextets (a # b # c # r) =
     (let n = unat a * 65536 + unat b * 256 + unat c
      in [n div 262144, n div 4096 mod 64, n div 64 mod 64, n mod 64] @ sextets r)"
| "sextets [a, b] =
     (let n = (unat a * 256 + unat b) * 4
      in [n div 4096, n div 64 mod 64, n mod 64])"
| "sextets [a] = (let n = unat a * 16 in [n div 64, n mod 64])"
| "sextets [] = []"

fun unsextets :: "nat list \<Rightarrow> byte list option" where
  "unsextets (w # x # y # z # r) =
     (let n = w * 262144 + x * 4096 + y * 64 + z
      in map_option
           (\<lambda>bs. [of_nat (n div 65536), of_nat (n div 256 mod 256), of_nat (n mod 256)] @ bs)
           (unsextets r))"
| "unsextets [w, x, y] =
     (let n = (w * 4096 + x * 64 + y) div 4
      in Some [of_nat (n div 256), of_nat (n mod 256)])"
| "unsextets [w, x] = Some [of_nat ((w * 64 + x) div 16)]"
| "unsextets [w] = None"
| "unsextets [] = Some []"

fun indexOf :: "'a \<Rightarrow> 'a list \<Rightarrow> nat option" where
  "indexOf c [] = None"
| "indexOf c (x # xs) = (if c = x then Some 0 else map_option Suc (indexOf c xs))"

definition b64url_encode :: "byte list \<Rightarrow> byte list" where
  "b64url_encode bs = map (\<lambda>n. b64alphabet ! n) (sextets bs)"

definition b64url_decode :: "byte list \<Rightarrow> byte list option" where
  "b64url_decode cs =
     (case those (map (\<lambda>c. indexOf c b64alphabet) cs) of
        None \<Rightarrow> None
      | Some ns \<Rightarrow> unsextets ns)"

section \<open>Lemmas\<close>

text \<open>One iteration of the loop of \<^verbatim>\<open>addPath\<close>, field by field.\<close>

lemma addPath_body_Some:
  assumes "subtrees (h ! curnode) = Some subt"
  shows "\<exists>h'. addPath_body h gpn curnode b =
     Some (h', case map_of subt (pathKey (icase (h ! gpn)) b) of Some v \<Rightarrow> v | None \<Rightarrow> length h)"
  using assms
  by (simp add: addPath_body_def Let_def pathKey_def newGlobPathNode_def split: option.splits prod.splits)

lemma addPath_body_fields:
  assumes sub: "subtrees (h ! curnode) = Some subt"
    and cur: "curnode < length h"
    and old: "\<And>v. map_of subt (pathKey (icase (h ! gpn)) b) = Some v \<Longrightarrow> v < length h"
    and res: "addPath_body h gpn curnode b = Some (h', v)"
  defines "c \<equiv> pathKey (icase (h ! gpn)) b"
  defines "part \<equiv> foldCase (icase (h ! gpn)) b"
  defines "fresh \<equiv> map_of subt c = None"
  defines "subt' \<equiv> (if fresh then AList.update c (length h) subt else subt)"
  shows "v = (case map_of subt c of Some v \<Rightarrow> v | None \<Rightarrow> length h)"
    and "length h' = (if fresh then Suc (length h) else length h)"
    and "\<And>a. a < length h' \<Longrightarrow> subtrees (h' ! a) =
          (if a = curnode then Some subt' else if a < length h then subtrees (h ! a) else Some [])"
    and "\<And>a. a < length h' \<Longrightarrow> oneShot (h' ! a) =
          (if a = curnode then (if length subt' = 1 then Some v else None)
           else if a < length h then oneShot (h ! a) else None)"
    and "\<And>a. a < length h' \<Longrightarrow> nodeChar (h' ! a) =
          (if a = v then part else if a < length h then nodeChar (h ! a) else 0)"
    and "\<And>a. a < length h' \<Longrightarrow> canMatch (h' ! a) = (a < length h \<and> canMatch (h ! a))"
    and "\<And>a. a < length h' \<Longrightarrow> icase (h' ! a) =
          (if a < length h then icase (h ! a) else icase (h ! gpn))"
    and "\<And>a. a < length h' \<Longrightarrow> isGlob (h' ! a) =
          ((a < length h \<and> isGlob (h ! a)) \<or> (a = v \<and> part = 42))"
    and "\<And>a. a < length h' \<Longrightarrow> hasGlobChild (h' ! a) =
          ((a < length h \<and> hasGlobChild (h ! a)) \<or> (a = curnode \<and> part = 42))"
  using sub cur old res
  unfolding c_def part_def fresh_def subt'_def
  by (auto simp add: addPath_body_def Let_def pathKey_def newGlobPathNode_def nth_list_update nth_append split: option.splits prod.splits if_splits)

lemma inv_validD:
  assumes "inv_valid h" "a < length h"
  obtains m where "subtrees (h ! a) = Some m" "distinct (map fst m)"
    "\<And>k b. map_of m k = Some b \<Longrightarrow> a < b \<and> b < length h"
  using assms unfolding inv_valid_def by blast

lemma subtreeAt_valid:
  "inv_valid h \<Longrightarrow> a < length h \<Longrightarrow> subtreeAt h a k = Some b \<Longrightarrow> a < b \<and> b < length h"
  by (erule (1) inv_validD) (simp add: subtreeAt_def)

text \<open>The effect of one iteration on the edges.\<close>

lemma addPath_body_subtreeAt:
  assumes val: "inv_valid h" and cur: "curnode < length h"
    and res: "addPath_body h gpn curnode b = Some (h', v)"
    and a: "a < length h'"
  shows "subtreeAt h' a k =
     (if a = curnode \<and> k = pathKey (icase (h ! gpn)) b then Some v
      else if a < length h then subtreeAt h a k else None)"
proof -
  obtain subt where sub: "subtrees (h ! curnode) = Some subt"
    and old: "\<And>k b. map_of subt k = Some b \<Longrightarrow> curnode < b \<and> b < length h"
    using inv_validD [OF val cur] by metis
  note f = addPath_body_fields [OF sub cur _ res]
  have v: "v = (case map_of subt (pathKey (icase (h ! gpn)) b) of Some v \<Rightarrow> v | None \<Rightarrow> length h)"
    using f(1) old by blast
  have s: "subtrees (h' ! a) =
          (if a = curnode then Some (if map_of subt (pathKey (icase (h ! gpn)) b) = None
              then AList.update (pathKey (icase (h ! gpn)) b) (length h) subt else subt)
           else if a < length h then subtrees (h ! a) else Some [])"
    using f(3) [OF _ a] old by blast
  show ?thesis
    using sub cur by (auto simp add: subtreeAt_def s v update_conv' split: option.splits)
qed

lemma addPath_body_length:
  assumes val: "inv_valid h" and cur: "curnode < length h"
    and res: "addPath_body h gpn curnode b = Some (h', v)"
  shows "length h \<le> length h'" "v < length h'" "curnode < v"
    "subtreeAt h curnode (pathKey (icase (h ! gpn)) b) = None \<Longrightarrow> v = length h \<and> length h' = Suc (length h)"
    "subtreeAt h curnode (pathKey (icase (h ! gpn)) b) = Some w \<Longrightarrow> v = w \<and> length h' = length h"
proof -
  obtain subt where sub: "subtrees (h ! curnode) = Some subt"
    and old: "\<And>k b. map_of subt k = Some b \<Longrightarrow> curnode < b \<and> b < length h"
    using inv_validD [OF val cur] by metis
  note f = addPath_body_fields [OF sub cur _ res]
  have v: "v = (case map_of subt (pathKey (icase (h ! gpn)) b) of Some v \<Rightarrow> v | None \<Rightarrow> length h)"
    using f(1) old by blast
  have l: "length h' = (if map_of subt (pathKey (icase (h ! gpn)) b) = None then Suc (length h) else length h)"
    using f(2) old by blast
  show "length h \<le> length h'" using l by simp
  show "v < length h'" using v l old by (auto split: option.splits)
  show "curnode < v" using v cur old by (auto split: option.splits)
  show "subtreeAt h curnode (pathKey (icase (h ! gpn)) b) = None \<Longrightarrow> v = length h \<and> length h' = Suc (length h)"
    using v l sub by (simp add: subtreeAt_def)
  show "subtreeAt h curnode (pathKey (icase (h ! gpn)) b) = Some w \<Longrightarrow> v = w \<and> length h' = length h"
    using v l sub by (simp add: subtreeAt_def)
qed

lemma addPath_body_total:
  assumes val: "inv_valid h" and cur: "curnode < length h"
  shows "\<exists>h' v. addPath_body h gpn curnode b = Some (h', v)"
  using inv_validD [OF val cur] addPath_body_Some by metis

subsection \<open>One iteration of addPath keeps the invariants\<close>

lemma addPath_body_fields':
  assumes val: "inv_valid h" and cur: "curnode < length h"
    and sub: "subtrees (h ! curnode) = Some subt"
    and res: "addPath_body h gpn curnode b = Some (h', v)"
  shows "v = (case map_of subt (pathKey (icase (h ! gpn)) b) of Some v \<Rightarrow> v | None \<Rightarrow> length h)"
    and "length h' = (if map_of subt (pathKey (icase (h ! gpn)) b) = None then Suc (length h) else length h)"
    and "\<And>a. a < length h' \<Longrightarrow> subtrees (h' ! a) =
          (if a = curnode
           then Some (if map_of subt (pathKey (icase (h ! gpn)) b) = None
                      then AList.update (pathKey (icase (h ! gpn)) b) (length h) subt else subt)
           else if a < length h then subtrees (h ! a) else Some [])"
    and "\<And>a. a < length h' \<Longrightarrow> oneShot (h' ! a) =
          (if a = curnode
           then (if length (if map_of subt (pathKey (icase (h ! gpn)) b) = None
                      then AList.update (pathKey (icase (h ! gpn)) b) (length h) subt else subt) = 1
                 then Some v else None)
           else if a < length h then oneShot (h ! a) else None)"
    and "\<And>a. a < length h' \<Longrightarrow> nodeChar (h' ! a) =
          (if a = v then foldCase (icase (h ! gpn)) b
           else if a < length h then nodeChar (h ! a) else 0)"
    and "\<And>a. a < length h' \<Longrightarrow> canMatch (h' ! a) = (a < length h \<and> canMatch (h ! a))"
    and "\<And>a. a < length h' \<Longrightarrow> icase (h' ! a) =
          (if a < length h then icase (h ! a) else icase (h ! gpn))"
    and "\<And>a. a < length h' \<Longrightarrow> isGlob (h' ! a) =
          ((a < length h \<and> isGlob (h ! a)) \<or> (a = v \<and> foldCase (icase (h ! gpn)) b = 42))"
    and "\<And>a. a < length h' \<Longrightarrow> hasGlobChild (h' ! a) =
          ((a < length h \<and> hasGlobChild (h ! a)) \<or>
           (a = curnode \<and> foldCase (icase (h ! gpn)) b = 42))"
proof -
  have old': "\<And>v. map_of subt (pathKey (icase (h ! gpn)) b) = Some v \<Longrightarrow> v < length h"
    using inv_validD [OF val cur] sub by (metis option.inject)
  note f = addPath_body_fields [OF sub cur old' res]
  show "v = (case map_of subt (pathKey (icase (h ! gpn)) b) of Some v \<Rightarrow> v | None \<Rightarrow> length h)"
    by (rule f(1))
  show "length h' = (if map_of subt (pathKey (icase (h ! gpn)) b) = None then Suc (length h) else length h)"
    by (rule f(2))
  show "\<And>a. a < length h' \<Longrightarrow> subtrees (h' ! a) =
          (if a = curnode
           then Some (if map_of subt (pathKey (icase (h ! gpn)) b) = None
                      then AList.update (pathKey (icase (h ! gpn)) b) (length h) subt else subt)
           else if a < length h then subtrees (h ! a) else Some [])"
    by (rule f(3))
  show "\<And>a. a < length h' \<Longrightarrow> oneShot (h' ! a) =
          (if a = curnode
           then (if length (if map_of subt (pathKey (icase (h ! gpn)) b) = None
                      then AList.update (pathKey (icase (h ! gpn)) b) (length h) subt else subt) = 1
                 then Some v else None)
           else if a < length h then oneShot (h ! a) else None)"
    by (rule f(4))
  show "\<And>a. a < length h' \<Longrightarrow> nodeChar (h' ! a) =
          (if a = v then foldCase (icase (h ! gpn)) b
           else if a < length h then nodeChar (h ! a) else 0)"
    by (rule f(5))
  show "\<And>a. a < length h' \<Longrightarrow> canMatch (h' ! a) = (a < length h \<and> canMatch (h ! a))"
    by (rule f(6))
  show "\<And>a. a < length h' \<Longrightarrow> icase (h' ! a) =
          (if a < length h then icase (h ! a) else icase (h ! gpn))"
    by (rule f(7))
  show "\<And>a. a < length h' \<Longrightarrow> isGlob (h' ! a) =
          ((a < length h \<and> isGlob (h ! a)) \<or> (a = v \<and> foldCase (icase (h ! gpn)) b = 42))"
    by (rule f(8))
  show "\<And>a. a < length h' \<Longrightarrow> hasGlobChild (h' ! a) =
          ((a < length h \<and> hasGlobChild (h ! a)) \<or>
           (a = curnode \<and> foldCase (icase (h ! gpn)) b = 42))"
    by (rule f(9))
qed

lemma addPath_body_valid:
  assumes val: "inv_valid h" and cur: "curnode < length h"
    and res: "addPath_body h gpn curnode b = Some (h', v)"
  shows "inv_valid h'"
proof -
  obtain subt where sub: "subtrees (h ! curnode) = Some subt"
    and dist: "distinct (map fst subt)"
    and old: "\<And>k x. map_of subt k = Some x \<Longrightarrow> curnode < x \<and> x < length h"
    using inv_validD [OF val cur] by metis
  note f = addPath_body_fields' [OF val cur sub res]
  note len = addPath_body_length [OF val cur res]
  let ?c = "pathKey (icase (h ! gpn)) b"
  let ?subt' = "if map_of subt ?c = None then AList.update ?c (length h) subt else subt"
  have s: "\<And>a. a < length h' \<Longrightarrow> subtrees (h' ! a) =
          (if a = curnode then Some ?subt' else if a < length h then subtrees (h ! a) else Some [])"
    using f(3) by blast
  show ?thesis
    unfolding inv_valid_def
  proof (intro allI impI)
    fix a assume a: "a < length h'"
    show "\<exists>m. subtrees (h' ! a) = Some m \<and> distinct (map fst m) \<and>
        (\<forall>k b. map_of m k = Some b \<longrightarrow> a < b \<and> b < length h')"
    proof (cases "a = curnode")
      case True
      have "distinct (map fst ?subt')" using dist by (simp add: distinct_update)
      moreover have "\<forall>k b. map_of ?subt' k = Some b \<longrightarrow> a < b \<and> b < length h'"
        using old cur len(1) True by (auto simp add: update_conv' f(2) less_Suc_eq split: if_splits)
      ultimately show ?thesis using s [OF a] True by simp
    next
      case False
      show ?thesis
      proof (cases "a < length h")
        case True
        then show ?thesis using s [OF a] False len(1) inv_validD [OF val True]
          by (metis less_le_trans)
      next
        case False
        then show ?thesis using s [OF a] \<open>a \<noteq> curnode\<close> by simp
      qed
    qed
  qed
qed

lemma addPath_body_ext:
  assumes val: "inv_valid h" and cur: "curnode < length h"
    and res: "addPath_body h gpn curnode b = Some (h', v)"
  shows "ext h h'"
proof -
  note e = addPath_body_subtreeAt [OF val cur res]
  note len = addPath_body_length [OF val cur res]
  obtain subt where sub: "subtrees (h ! curnode) = Some subt"
    and dist: "distinct (map fst subt)"
    and old: "\<And>k x. map_of subt k = Some x \<Longrightarrow> curnode < x \<and> x < length h"
    using inv_validD [OF val cur] by metis
  note f = addPath_body_fields' [OF val cur sub res]
  have cm: "\<And>a. a < length h' \<Longrightarrow> canMatch (h' ! a) = (a < length h \<and> canMatch (h ! a))"
    using f(6) by blast
  have 1: "\<forall>a<length h. \<forall>k b. subtreeAt h a k = Some b \<longrightarrow> subtreeAt h' a k = Some b"
    using e len by (auto split: if_splits)
  have 2: "\<forall>a<length h'. \<forall>k b. subtreeAt h' a k = Some b \<longrightarrow>
        (a < length h \<and> subtreeAt h a k = Some b) \<or> length h \<le> b"
  proof (intro allI impI)
    fix a k x assume a: "a < length h'" and eb: "subtreeAt h' a k = Some x"
    show "(a < length h \<and> subtreeAt h a k = Some x) \<or> length h \<le> x"
    proof (cases "a = curnode \<and> k = pathKey (icase (h ! gpn)) b")
      case True
      then have "x = v" using e [OF a, of k] eb by simp
      then show ?thesis using len(4,5) True cur
        by (cases "subtreeAt h curnode (pathKey (icase (h ! gpn)) b)") auto
    next
      case False
      then show ?thesis using e [OF a, of k] eb by (auto split: if_splits)
    qed
  qed
  show ?thesis unfolding ext_def using len(1) 1 2 cm by blast
qed

lemma addPath_body_noshare:
  assumes val: "inv_valid h" and ns: "inv_noshare h" and cur: "curnode < length h"
    and res: "addPath_body h gpn curnode b = Some (h', v)"
  shows "inv_noshare h'"
proof -
  note e = addPath_body_subtreeAt [OF val cur res]
  note len = addPath_body_length [OF val cur res]
  let ?c = "pathKey (icase (h ! gpn)) b"
  show ?thesis unfolding inv_noshare_def
  proof (intro allI impI, elim conjE)
    fix a a' k k' x
    assume a: "a < length h'" and a': "a' < length h'"
      and 1: "subtreeAt h' a k = Some x" and 2: "subtreeAt h' a' k' = Some x"
    have old: "\<And>a k. a < length h \<Longrightarrow> subtreeAt h a k = Some x \<Longrightarrow> x < length h"
      using subtreeAt_valid [OF val] by blast
    have new: "\<And>a k. a < length h' \<Longrightarrow> subtreeAt h' a k = Some x \<Longrightarrow>
        (a = curnode \<and> k = ?c \<and> x = v) \<or> (a < length h \<and> subtreeAt h a k = Some x)"
      using e by (auto split: if_splits)
    consider (nn) "a = curnode \<and> k = ?c \<and> x = v" "a' = curnode \<and> k' = ?c \<and> x = v"
      | (no) "a = curnode \<and> k = ?c \<and> x = v" "a' < length h \<and> subtreeAt h a' k' = Some x"
      | (on) "a < length h \<and> subtreeAt h a k = Some x" "a' = curnode \<and> k' = ?c \<and> x = v"
      | (oo) "a < length h \<and> subtreeAt h a k = Some x" "a' < length h \<and> subtreeAt h a' k' = Some x"
      using new [OF a 1] new [OF a' 2] by blast
    then show "a = a' \<and> k = k'"
    proof cases
      case nn then show ?thesis by simp
    next
      case no
      show ?thesis
      proof (cases "subtreeAt h curnode ?c")
        case None
        then show ?thesis using len(4) no old by fastforce
      next
        case (Some w)
        then have "w = v" using len(5) by simp
        then show ?thesis using ns no Some cur unfolding inv_noshare_def by blast
      qed
    next
      case on
      show ?thesis
      proof (cases "subtreeAt h curnode ?c")
        case None
        then show ?thesis using len(4) on old by fastforce
      next
        case (Some w)
        then have "w = v" using len(5) by simp
        then show ?thesis using ns on Some cur unfolding inv_noshare_def by blast
      qed
    next
      case oo then show ?thesis using ns unfolding inv_noshare_def by blast
    qed
  qed
qed

lemma addPath_body_icase:
  assumes val: "inv_valid h" and ic: "inv_icase ic h" and cur: "curnode < length h"
    and gpn: "gpn < length h"
    and res: "addPath_body h gpn curnode b = Some (h', v)"
  shows "inv_icase ic h'"
proof -
  obtain subt where sub: "subtrees (h ! curnode) = Some subt"
    and dist: "distinct (map fst subt)"
    and old: "\<And>k x. map_of subt k = Some x \<Longrightarrow> curnode < x \<and> x < length h"
    using inv_validD [OF val cur] by metis
  note f = addPath_body_fields' [OF val cur sub res]
  have "\<And>a. a < length h' \<Longrightarrow> icase (h' ! a) =
          (if a < length h then icase (h ! a) else icase (h ! gpn))"
    using f(7) by blast
  then show ?thesis using ic gpn unfolding inv_icase_def by simp
qed

lemma addPath_body_nodeChar:
  assumes val: "inv_valid h" and ns: "inv_noshare h" and nc: "inv_nodeChar h"
    and cur: "curnode < length h"
    and res: "addPath_body h gpn curnode b = Some (h', v)"
  shows "inv_nodeChar h'"
proof -
  note e = addPath_body_subtreeAt [OF val cur res]
  note len = addPath_body_length [OF val cur res]
  let ?c = "pathKey (icase (h ! gpn)) b"
  let ?part = "foldCase (icase (h ! gpn)) b"
  obtain subt where sub: "subtrees (h ! curnode) = Some subt"
    and dist: "distinct (map fst subt)"
    and old: "\<And>k x. map_of subt k = Some x \<Longrightarrow> curnode < x \<and> x < length h"
    using inv_validD [OF val cur] by metis
  note f = addPath_body_fields' [OF val cur sub res]
  have ncf: "\<And>a. a < length h' \<Longrightarrow> nodeChar (h' ! a) =
          (if a = v then ?part else if a < length h then nodeChar (h ! a) else 0)"
    using f(5) by blast
  have key: "?c \<noteq> globChar \<Longrightarrow> ?part = ?c" by (simp add: pathKey_def split: if_splits)
  show ?thesis unfolding inv_nodeChar_def
  proof (intro allI impI, elim conjE)
    fix a k x
    assume a: "a < length h'" and 1: "subtreeAt h' a k = Some x" and k: "k \<noteq> globChar"
    have x: "x < length h'"
      using subtreeAt_valid [OF addPath_body_valid [OF val cur res] a 1] by simp
    show "nodeChar (h' ! x) = k"
    proof (cases "a = curnode \<and> k = ?c")
      case True
      then have "x = v" using e [OF a, of k] 1 by simp
      then show ?thesis using ncf [OF x] key k True by simp
    next
      case False
      then have o: "a < length h" "subtreeAt h a k = Some x"
        using e [OF a, of k] 1 by (auto split: if_splits)
      then have xl: "x < length h" using subtreeAt_valid [OF val] by blast
      have "x \<noteq> v"
      proof
        assume xv: "x = v"
        show False
        proof (cases "subtreeAt h curnode ?c")
          case None then show ?thesis using len(4) xv xl by simp
        next
          case (Some w)
          then have "w = v" using len(5) by simp
          then show ?thesis using ns o Some cur xv False unfolding inv_noshare_def by blast
        qed
      qed
      then show ?thesis using ncf [OF x] xl nc o k unfolding inv_nodeChar_def by simp
    qed
  qed
qed

lemma addPath_body_oneShot:
  assumes val: "inv_valid h" and os: "inv_oneShot h"
    and cur: "curnode < length h"
    and res: "addPath_body h gpn curnode b = Some (h', v)"
  shows "inv_oneShot h'"
proof -
  let ?c = "pathKey (icase (h ! gpn)) b"
  obtain subt where sub: "subtrees (h ! curnode) = Some subt"
    and dist: "distinct (map fst subt)"
    and old: "\<And>k x. map_of subt k = Some x \<Longrightarrow> curnode < x \<and> x < length h"
    using inv_validD [OF val cur] by metis
  note f = addPath_body_fields' [OF val cur sub res]
  let ?subt' = "if map_of subt ?c = None then AList.update ?c (length h) subt else subt"
  have v: "v = (case map_of subt ?c of Some v \<Rightarrow> v | None \<Rightarrow> length h)"
    using f(1) by blast
  have s: "\<And>a. a < length h' \<Longrightarrow> subtrees (h' ! a) =
          (if a = curnode then Some ?subt' else if a < length h then subtrees (h ! a) else Some [])"
    using f(3) by blast
  have o: "\<And>a. a < length h' \<Longrightarrow> oneShot (h' ! a) =
          (if a = curnode then (if length ?subt' = 1 then Some v else None)
           else if a < length h then oneShot (h ! a) else None)"
    using f(4) by blast
  have single: "(if length ?subt' = 1 then Some v else None) =
      (case ?subt' of [(k, b)] \<Rightarrow> Some b | _ \<Rightarrow> None)"
  proof (cases "map_of subt ?c")
    case None
    then show ?thesis using v
      by (cases subt rule: list.exhaust; cases "tl subt") (auto split: if_splits)
  next
    case (Some w)
    then show ?thesis using v
      by (cases subt rule: list.exhaust; cases "tl subt") (auto split: if_splits)
  qed
  show ?thesis unfolding inv_oneShot_def
  proof (intro allI impI)
    fix a assume a: "a < length h'"
    show "oneShot (h' ! a) = (case subtrees (h' ! a) of Some [(k, b)] \<Rightarrow> Some b | _ \<Rightarrow> None)"
    proof (cases "a = curnode")
      case True
      then show ?thesis using o [OF a] s [OF a] single by simp
    next
      case False
      then show ?thesis using o [OF a] s [OF a] os unfolding inv_oneShot_def by simp
    qed
  qed
qed

lemma ext_refl: "ext h h"
  by (simp add: ext_def)

lemma ext_trans: "ext h1 h2 \<Longrightarrow> ext h2 h3 \<Longrightarrow> ext h1 h3"
  unfolding ext_def
  apply (intro conjI allI impI)
     apply simp
    apply (meson less_le_trans)
   apply (metis le_trans)
  apply (metis less_le_trans not_le)
  done

lemma addPath_body_inv:
  assumes "inv_trie ic h" "gpn < length h" "curnode < length h"
  shows "\<exists>h' v. addPath_body h gpn curnode b = Some (h', v) \<and> inv_trie ic h' \<and> ext h h' \<and>
           v < length h' \<and> subtreeAt h' curnode (pathKey ic b) = Some v"
proof -
  have val: "inv_valid h" and ic: "icase (h ! gpn) = ic"
    using assms by (simp_all add: inv_trie_def inv_icase_def)
  obtain h' v where res: "addPath_body h gpn curnode b = Some (h', v)"
    using addPath_body_total [OF val assms(3)] by blast
  note len = addPath_body_length [OF val assms(3) res]
  have "inv_trie ic h'"
    using assms res len(1)
      addPath_body_valid [OF val assms(3) res]
      addPath_body_noshare [OF val _ assms(3) res]
      addPath_body_oneShot [OF val _ assms(3) res]
      addPath_body_nodeChar [OF val _ _ assms(3) res]
      addPath_body_icase [OF val _ assms(3) assms(2) res]
    by (auto simp add: inv_trie_def)
  moreover have "subtreeAt h' curnode (pathKey ic b) = Some v"
    using addPath_body_subtreeAt [OF val assms(3) res, of curnode "pathKey ic b"] assms(3) len(1) ic
    by simp
  ultimately show ?thesis
    using res addPath_body_ext [OF val assms(3) res] len(2) by blast
qed

lemma addPath_loop_inv:
  assumes "inv_trie ic h" "gpn < length h" "curnode < length h"
  shows "\<exists>h' t. addPath_loop h gpn curnode s = Some (h', t) \<and> inv_trie ic h' \<and> ext h h' \<and>
           t < length h' \<and> walk h' curnode (map (pathKey ic) s) = Some t"
  using assms
proof (induction s arbitrary: h curnode)
  case Nil
  then show ?case by (simp add: ext_refl)
next
  case (Cons b s)
  from addPath_body_inv [OF Cons.prems, of b] obtain h1 v where
    body: "addPath_body h gpn curnode b = Some (h1, v)" and inv1: "inv_trie ic h1"
    and ext1: "ext h h1" and v: "v < length h1"
    and edge: "subtreeAt h1 curnode (pathKey ic b) = Some v"
    by blast
  have gpn1: "gpn < length h1" and cur1: "curnode < length h1"
    using ext1 Cons.prems by (auto simp add: ext_def)
  from Cons.IH [OF inv1 gpn1 v] obtain h' t where
    loop: "addPath_loop h1 gpn v s = Some (h', t)" and inv': "inv_trie ic h'"
    and ext': "ext h1 h'" and t: "t < length h'"
    and w: "walk h' v (map (pathKey ic) s) = Some t"
    by blast
  have "subtreeAt h' curnode (pathKey ic b) = Some v"
    using ext' edge cur1 by (simp add: ext_def)
  then have "walk h' curnode (map (pathKey ic) (b # s)) = Some t"
    using w by simp
  then show ?case
    using body loop inv' ext_trans [OF ext1 ext'] t by simp
qed

text \<open>Walks and the way stores grow.\<close>

lemma walk_append:
  "walk h a (u @ w) = (case walk h a u of None \<Rightarrow> None | Some x \<Rightarrow> walk h x w)"
  by (induction u arbitrary: a) (auto split: option.splits)

lemma walk_valid:
  "inv_valid h \<Longrightarrow> a < length h \<Longrightarrow> walk h a w = Some t \<Longrightarrow> t < length h \<and> a \<le> t"
proof (induction w arbitrary: a)
  case Nil then show ?case by simp
next
  case (Cons k w)
  then obtain x where x: "subtreeAt h a k = Some x" "walk h x w = Some t"
    by (auto split: option.splits)
  then show ?case using Cons.IH [of x] Cons.prems(1,2) subtreeAt_valid [of h a k x]
    by fastforce
qed

lemma walk_ext:
  "ext h h' \<Longrightarrow> inv_valid h \<Longrightarrow> a < length h \<Longrightarrow> walk h a w = Some t \<Longrightarrow> walk h' a w = Some t"
proof (induction w arbitrary: a)
  case Nil then show ?case by simp
next
  case (Cons k w)
  then obtain x where x: "subtreeAt h a k = Some x" "walk h x w = Some t"
    by (auto split: option.splits)
  have "x < length h" using subtreeAt_valid [OF Cons.prems(2,3) x(1)] by simp
  moreover have "subtreeAt h' a k = Some x" using Cons.prems(1,3) x(1) by (simp add: ext_def)
  ultimately show ?case using Cons.IH [of x] Cons.prems(1,2) x(2) by simp
qed

lemma walk_back:
  "ext h h' \<Longrightarrow> inv_valid h' \<Longrightarrow> a < length h' \<Longrightarrow> walk h' a w = Some t \<Longrightarrow> t < length h \<Longrightarrow>
     a < length h \<and> walk h a w = Some t"
proof (induction w arbitrary: a)
  case Nil then show ?case by simp
next
  case (Cons k w)
  then obtain x where x: "subtreeAt h' a k = Some x" "walk h' x w = Some t"
    by (auto split: option.splits)
  have xl: "x < length h'" using subtreeAt_valid [OF Cons.prems(2,3) x(1)] by simp
  from Cons.IH [OF Cons.prems(1,2) xl x(2) Cons.prems(5)]
  have o: "x < length h" "walk h x w = Some t" by simp_all
  have "a < length h \<and> subtreeAt h a k = Some x"
    using Cons.prems(1,3) x(1) o(1) unfolding ext_def by (metis not_le)
  then show ?case using o(2) by simp
qed

lemma walk_unique:
  assumes val: "inv_valid h" and ns: "inv_noshare h" and ne: "h \<noteq> []"
  shows "walk h 0 w = Some t \<Longrightarrow> walk h 0 w' = Some t \<Longrightarrow> w = w'"
proof (induction w arbitrary: w' t rule: rev_induct)
  case Nil
  then have t: "t = 0" by simp
  show ?case
  proof (cases w' rule: rev_cases)
    case Nil then show ?thesis by simp
  next
    case (snoc u k)
    then obtain x where "walk h 0 u = Some x" "subtreeAt h x k = Some 0"
      using Nil.prems(2) t by (auto simp add: walk_append split: option.splits)
    then show ?thesis using walk_valid [OF val, of 0 u x] subtreeAt_valid [OF val, of x k 0] ne
      by simp
  qed
next
  case (snoc k u)
  then obtain x where x: "walk h 0 u = Some x" "subtreeAt h x k = Some t"
    by (auto simp add: walk_append split: option.splits)
  have xl: "x < length h" using walk_valid [OF val _ x(1)] ne by simp
  show ?case
  proof (cases w' rule: rev_cases)
    case Nil
    then have "t = 0" using snoc.prems(2) by simp
    then show ?thesis using subtreeAt_valid [OF val xl x(2)] by simp
  next
    case (snoc u' k')
    then obtain x' where x': "walk h 0 u' = Some x'" "subtreeAt h x' k' = Some t"
      using snoc.prems(2) by (auto simp add: walk_append split: option.splits)
    have xl': "x' < length h" using walk_valid [OF val _ x'(1)] ne by simp
    have "x = x' \<and> k = k'" using ns xl xl' x(2) x'(2) unfolding inv_noshare_def by blast
    then show ?thesis using snoc.IH [OF x(1), of u'] x'(1) \<open>w' = u' @ [k']\<close> by simp
  qed
qed

declare checkPath_loop.simps [simp del] globConsume.simps [simp del] globConsume_loop.simps [simp del]

subsection \<open>One iteration of the queries\<close>

lemma checkPath_loop_end:
  "\<not> i < mlen \<Longrightarrow>
     checkPath_loop h gpn curnode s i mlen = Some (canMatch (h ! curnode) \<or> isGlob (h ! curnode))"
  by (subst checkPath_loop.simps) simp

lemma checkPath_loop_unfold:
  "i < mlen \<Longrightarrow> i < length s \<Longrightarrow>
     checkPath_loop h gpn curnode s i mlen =
       (case globTry h curnode s i mlen of
          None \<Rightarrow> None
        | Some True \<Rightarrow> Some True
        | Some False \<Rightarrow>
            (case nextNode h curnode (foldCase (icase (h ! gpn)) (s ! i)) of
               None \<Rightarrow> Some False
             | Some v \<Rightarrow> checkPath_loop h gpn v s (i + 1) mlen))"
  by (subst checkPath_loop.simps)
     (simp add: globTry_def nextNode_def Let_def split: option.split bool.split)

lemma globConsume_loop_end:
  "\<not> i < mlen \<Longrightarrow> globConsume_loop h gpn la st s i mlen = Some False"
  by (subst globConsume_loop.simps) simp

lemma globConsume_loop_unfold:
  "i < mlen \<Longrightarrow> i < length s \<Longrightarrow>
     globConsume_loop h gpn la st s i mlen =
       (case skipStep h gpn st (foldCase (icase (h ! gpn)) (s ! i)) of
          None \<Rightarrow> None
        | Some True \<Rightarrow> globConsume_loop h gpn la True s (i + 1) mlen
        | Some False \<Rightarrow>
            (case follow h gpn (foldCase (icase (h ! gpn)) (s ! i)) s i mlen of
               None \<Rightarrow> None
             | Some True \<Rightarrow> Some True
             | Some False \<Rightarrow>
                 if i = mlen - 1 then Some (canMatch (h ! gpn))
                 else globConsume_loop h gpn la la s (i + 1) mlen))"
  by (subst globConsume_loop.simps)
     (simp add: skipStep_def follow_def Let_def split: option.split bool.split)

lemma no_panic_aux:
  "mlen \<le> length s \<Longrightarrow>
     (\<forall>gpn curnode. checkPath_loop h gpn curnode s i mlen \<noteq> None) \<and>
     (\<forall>g. globConsume h g s i mlen \<noteq> None) \<and>
     (\<forall>g la st. (la \<or> st \<longrightarrow> oneShot (h ! g) \<noteq> None) \<longrightarrow>
        globConsume_loop h g la st s i mlen \<noteq> None)"
proof (induction "mlen - i" arbitrary: i)
  case 0
  then have i: "\<not> i < mlen" by simp
  have R: "\<And>g la st. globConsume_loop h g la st s i mlen \<noteq> None"
    by (simp add: globConsume_loop_end [OF i])
  have Q: "\<And>g. globConsume h g s i mlen \<noteq> None"
    by (subst globConsume.simps) (use R in auto)
  have P: "\<And>gpn curnode. checkPath_loop h gpn curnode s i mlen \<noteq> None"
    by (simp add: checkPath_loop_end [OF i])
  show ?case using P Q R by blast
next
  case (Suc n)
  then have i: "i < mlen" "i < length s" and n: "n = mlen - (i + 1)" by simp_all
  from Suc.hyps(1) [OF n Suc.prems]
  have P': "\<And>gpn curnode. checkPath_loop h gpn curnode s (i + 1) mlen \<noteq> None"
    and R': "\<And>g la st. la \<or> st \<longrightarrow> oneShot (h ! g) \<noteq> None \<Longrightarrow>
              globConsume_loop h g la st s (i + 1) mlen \<noteq> None"
    by blast+
  have R: "globConsume_loop h g la st s i mlen \<noteq> None"
    if os: "la \<or> st \<longrightarrow> oneShot (h ! g) \<noteq> None" for g la st
  proof -
    let ?part = "foldCase (icase (h ! g)) (s ! i)"
    have 2: "globConsume_loop h g la la s (i + 1) mlen \<noteq> None"
      using R' os by blast
    have F: "follow h g ?part s i mlen \<noteq> None"
      using P' by (auto simp add: follow_def split: option.split)
    show ?thesis
    proof (cases "skipStep h g st ?part")
      case None
      then show ?thesis using os by (auto simp add: skipStep_def split: if_splits option.splits)
    next
      case (Some b)
      show ?thesis
      proof (cases b)
        case True
        then have "st" using Some by (simp add: skipStep_def split: if_splits)
        then have "globConsume_loop h g la True s (i + 1) mlen \<noteq> None"
          using R' os by blast
        then show ?thesis using Some True by (simp add: globConsume_loop_unfold [OF i])
      next
        case False
        then show ?thesis using Some F 2
          by (cases "follow h g ?part s i mlen"; auto simp add: globConsume_loop_unfold [OF i] split: bool.split)
      qed
    qed
  qed
  have Q: "\<And>g. globConsume h g s i mlen \<noteq> None"
    by (subst globConsume.simps) (use R in auto)
  have G: "\<And>curnode. globTry h curnode s i mlen \<noteq> None"
    using Q by (auto simp add: globTry_def split: option.split)
  have P: "checkPath_loop h gpn curnode s i mlen \<noteq> None" for gpn curnode
    using G [of curnode] P'
    by (cases "globTry h curnode s i mlen"; auto simp add: checkPath_loop_unfold [OF i] split: bool.split option.split)
  show ?case using P Q R by blast
qed

lemma checkPath_loop_no_panic:
  "mlen \<le> length s \<Longrightarrow> checkPath_loop h gpn curnode s i mlen \<noteq> None"
  using no_panic_aux by blast

lemma globConsume_no_panic:
  "mlen \<le> length s \<Longrightarrow> globConsume h g s i mlen \<noteq> None"
  using no_panic_aux by blast

lemma globTry_no_panic:
  "mlen \<le> length s \<Longrightarrow> globTry h curnode s i mlen \<noteq> None"
  using globConsume_no_panic [of mlen s h _ i] by (auto simp add: globTry_def split: option.split)

lemma nextNode_lit:
  assumes val: "inv_valid h" and os: "inv_oneShot h" and nc: "inv_nodeChar h"
    and a: "a < length h" and e: "subtreeAt h a part = Some v" and p: "part \<noteq> globChar"
  shows "nextNode h a part = Some v"
proof -
  obtain m where m: "subtrees (h ! a) = Some m" using inv_validD [OF val a] by metis
  have o: "oneShot (h ! a) = (case m of [(k, b)] \<Rightarrow> Some b | _ \<Rightarrow> None)"
    using os a m by (simp add: inv_oneShot_def)
  have n: "nodeChar (h ! v) = part" using nc a e p unfolding inv_nodeChar_def by blast
  have mp: "map_of m part = Some v" using e m by (simp add: subtreeAt_def)
  show ?thesis
  proof (cases "\<exists>k b. m = [(k, b)]")
    case True
    then obtain k b where kb: "m = [(k, b)]" by blast
    then have "k = part" "b = v" using mp by (auto split: if_splits)
    then show ?thesis using o kb n p by (simp add: nextNode_def)
  next
    case False
    then have "oneShot (h ! a) = None" using o
      by (auto split: list.splits prod.splits)
    then show ?thesis using e by (simp add: nextNode_def)
  qed
qed

lemma nextNode_noglob:
  assumes val: "inv_valid h" and os: "inv_oneShot h" and nc: "inv_nodeChar h"
    and ng: "inv_noglob h" and a: "a < length h"
  shows "nextNode h a part = subtreeAt h a part"
proof -
  obtain m where m: "subtrees (h ! a) = Some m" using inv_validD [OF val a] by metis
  have o: "oneShot (h ! a) = (case m of [(k, b)] \<Rightarrow> Some b | _ \<Rightarrow> None)"
    using os a m by (simp add: inv_oneShot_def)
  show ?thesis
  proof (cases "\<exists>k b. m = [(k, b)]")
    case True
    then obtain k b where kb: "m = [(k, b)]" by blast
    then have e: "subtreeAt h a k = Some b" using m by (simp add: subtreeAt_def)
    have k: "k \<noteq> globChar" using ng a e unfolding inv_noglob_def by auto
    then have "nodeChar (h ! b) = k" using nc a e unfolding inv_nodeChar_def by blast
    then show ?thesis using o kb k m by (auto simp add: nextNode_def subtreeAt_def)
  next
    case False
    then have "oneShot (h ! a) = None" using o
      by (auto split: list.splits prod.splits)
    then show ?thesis by (simp add: nextNode_def)
  qed
qed

lemma checkPath_loop_literal:
  assumes val: "inv_valid h" and os: "inv_oneShot h" and nc: "inv_nodeChar h"
    and ic: "icase (h ! gpn) = ic"
  shows "walk h a (map (foldCase ic) (drop i s)) = Some t \<Longrightarrow> canMatch (h ! t) \<Longrightarrow>
     globChar \<notin> foldCase ic ` set (drop i s) \<Longrightarrow> a < length h \<Longrightarrow>
     checkPath_loop h gpn a s i (length s) = Some True"
proof (induction "length s - i" arbitrary: i a)
  case 0
  then have "drop i s = []" "\<not> i < length s" by simp_all
  then show ?case using 0 by (simp add: checkPath_loop_end)
next
  case (Suc n)
  then have i: "i < length s" and n: "n = length s - (i + 1)" by simp_all
  let ?part = "foldCase ic (s ! i)"
  have d: "drop i s = s ! i # drop (i + 1) s" using i by (simp add: Cons_nth_drop_Suc)
  obtain v where v: "subtreeAt h a ?part = Some v"
    and w: "walk h v (map (foldCase ic) (drop (i + 1) s)) = Some t"
    using Suc.prems(1) d by (auto split: option.splits)
  have p: "?part \<noteq> globChar" using Suc.prems(3) d by auto
  have vl: "v < length h" using subtreeAt_valid [OF val Suc.prems(4) v] by simp
  have nx: "nextNode h a ?part = Some v"
    by (rule nextNode_lit [OF val os nc Suc.prems(4) v p])
  have rest: "checkPath_loop h gpn v s (i + 1) (length s) = Some True"
    using Suc.hyps(1) [OF n w Suc.prems(2) _ vl] Suc.prems(3) d by auto
  have "globTry h a s i (length s) \<noteq> None" by (simp add: globTry_no_panic)
  then show ?case using nx rest ic
    by (cases "globTry h a s i (length s)")
       (auto simp add: checkPath_loop_unfold [OF i i] split: bool.split)
qed

lemma checkPath_loop_exact_fold:
  assumes val: "inv_valid h" and os: "inv_oneShot h" and nc: "inv_nodeChar h"
    and ng: "inv_noglob h" and ic: "icase (h ! gpn) = ic"
  shows "a < length h \<Longrightarrow>
     checkPath_loop h gpn a s i (length s) =
       Some (case walk h a (map (foldCase ic) (drop i s)) of
               Some t \<Rightarrow> canMatch (h ! t) | None \<Rightarrow> False)"
proof (induction "length s - i" arbitrary: i a)
  case 0
  then have "drop i s = []" "\<not> i < length s" by simp_all
  then show ?case using 0 ng by (simp add: checkPath_loop_end inv_noglob_def)
next
  case (Suc n)
  then have i: "i < length s" and n: "n = length s - (i + 1)" by simp_all
  let ?part = "foldCase ic (s ! i)"
  have d: "drop i s = s ! i # drop (i + 1) s" using i by (simp add: Cons_nth_drop_Suc)
  have g: "globTry h a s i (length s) = Some False"
    using ng Suc.prems by (simp add: globTry_def inv_noglob_def)
  have nx: "nextNode h a ?part = subtreeAt h a ?part"
    by (rule nextNode_noglob [OF val os nc ng Suc.prems])
  show ?case
  proof (cases "subtreeAt h a ?part")
    case None
    then show ?thesis using g nx ic d
      by (simp add: checkPath_loop_unfold [OF i i])
  next
    case (Some v)
    have vl: "v < length h" using subtreeAt_valid [OF val Suc.prems Some] by simp
    show ?thesis using g nx ic d Some Suc.hyps(1) [OF n vl]
      by (simp add: checkPath_loop_unfold [OF i i])
  qed
qed

subsection \<open>Whole calls of addPath\<close>

lemma grows_refl: "grows h h"
  by (simp add: grows_def)

lemma grows_trans: "grows h1 h2 \<Longrightarrow> grows h2 h3 \<Longrightarrow> grows h1 h3"
  unfolding grows_def
  apply (intro conjI allI impI)
    apply simp
   apply (meson less_le_trans)
  apply (meson less_le_trans)
  done

lemma walk_grows:
  "grows h h' \<Longrightarrow> inv_valid h \<Longrightarrow> a < length h \<Longrightarrow> walk h a w = Some t \<Longrightarrow> walk h' a w = Some t"
proof (induction w arbitrary: a)
  case Nil then show ?case by simp
next
  case (Cons k w)
  then obtain x where x: "subtreeAt h a k = Some x" "walk h x w = Some t"
    by (auto split: option.splits)
  have "x < length h" using subtreeAt_valid [OF Cons.prems(2,3) x(1)] by simp
  moreover have "subtreeAt h' a k = Some x" using Cons.prems(1,3) x(1) by (simp add: grows_def)
  ultimately show ?case using Cons.IH [of x] Cons.prems(1,2) x(2) by simp
qed

text \<open>Marking the terminal node changes no edge and no other field.\<close>

lemma setMatch_fields:
  assumes t: "t < length h"
  defines "h' \<equiv> h[t := (h ! t)\<lparr>canMatch := True\<rparr>]"
  shows "length h' = length h"
    and "subtrees (h' ! a) = subtrees (h ! a)"
    and "oneShot (h' ! a) = oneShot (h ! a)"
    and "nodeChar (h' ! a) = nodeChar (h ! a)"
    and "icase (h' ! a) = icase (h ! a)"
    and "isGlob (h' ! a) = isGlob (h ! a)"
    and "hasGlobChild (h' ! a) = hasGlobChild (h ! a)"
    and "canMatch (h' ! a) = (canMatch (h ! a) \<or> a = t)"
    and "subtreeAt h' a k = subtreeAt h a k"
  using t unfolding h'_def by (auto simp add: nth_list_update subtreeAt_def)

lemma setMatch_walk:
  "t < length h \<Longrightarrow> walk (h[t := (h ! t)\<lparr>canMatch := True\<rparr>]) a w = walk h a w"
  by (induction w arbitrary: a) (simp_all add: setMatch_fields split: option.split)

lemma setMatch_inv:
  assumes "t < length h" "inv_trie ic h"
  shows "inv_trie ic (h[t := (h ! t)\<lparr>canMatch := True\<rparr>])"
  using assms
  unfolding inv_trie_def inv_valid_def inv_noshare_def inv_oneShot_def inv_nodeChar_def inv_icase_def
  by (simp add: setMatch_fields)

lemma setMatch_noglob:
  assumes "t < length h" "inv_noglob h"
  shows "inv_noglob (h[t := (h ! t)\<lparr>canMatch := True\<rparr>])"
  using assms unfolding inv_noglob_def by (simp add: setMatch_fields)

lemma addPath_trie:
  assumes inv: "inv_trie ic h" and gpn: "gpn < length h"
  obtains h' t where
    "addPath_loop h gpn gpn s = Some (h', t)"
    "addPath h gpn s = Some (None, h'[t := (h' ! t)\<lparr>canMatch := True\<rparr>])"
    "inv_trie ic h'" "ext h h'" "t < length h'"
    "walk h' gpn (map (pathKey ic) s) = Some t"
proof -
  from addPath_loop_inv [OF inv gpn gpn, of s] obtain h' t where
    l: "addPath_loop h gpn gpn s = Some (h', t)" "inv_trie ic h'" "ext h h'" "t < length h'"
      "walk h' gpn (map (pathKey ic) s) = Some t"
    by blast
  have val: "inv_valid h" using inv by (simp add: inv_trie_def)
  obtain m where "subtrees (h ! gpn) = Some m" using inv_validD [OF val gpn] by metis
  then have "addPath h gpn s = Some (None, h'[t := (h' ! t)\<lparr>canMatch := True\<rparr>])"
    using l(1) by (simp add: addPath_def)
  then show thesis using l that by blast
qed

lemma addPath_grows:
  assumes inv: "inv_trie ic h" and gpn: "gpn < length h"
  shows "\<exists>h'' t. addPath h gpn s = Some (None, h'') \<and> inv_trie ic h'' \<and> grows h h'' \<and>
           t < length h'' \<and> walk h'' gpn (map (pathKey ic) s) = Some t \<and> canMatch (h'' ! t)"
proof -
  from addPath_trie [OF inv gpn, of s] obtain h' t where
    l: "addPath h gpn s = Some (None, h'[t := (h' ! t)\<lparr>canMatch := True\<rparr>])"
      "inv_trie ic h'" "ext h h'" "t < length h'"
      "walk h' gpn (map (pathKey ic) s) = Some t"
    by blast
  let ?h = "h'[t := (h' ! t)\<lparr>canMatch := True\<rparr>]"
  have "grows h ?h"
    using l(3,4) unfolding grows_def ext_def
    by (simp add: setMatch_fields)
  then show ?thesis
    using l setMatch_inv [OF l(4) l(2)] by (simp add: setMatch_walk setMatch_fields)
qed

lemma addPaths_append:
  "addPaths h gpn (ps @ qs) =
     (case addPaths h gpn ps of None \<Rightarrow> None | Some h' \<Rightarrow> addPaths h' gpn qs)"
  by (induction ps arbitrary: h) (auto split: option.splits prod.splits)

lemma addPaths_grows:
  "inv_trie ic h \<Longrightarrow> gpn < length h \<Longrightarrow>
     \<exists>h'. addPaths h gpn ps = Some h' \<and> inv_trie ic h' \<and> grows h h'"
proof (induction ps arbitrary: h)
  case Nil
  then show ?case by (simp add: grows_refl)
next
  case (Cons p ps)
  from addPath_grows [OF Cons.prems, of p] obtain h1 where
    1: "addPath h gpn p = Some (None, h1)" "inv_trie ic h1" "grows h h1" by blast
  have "gpn < length h1" using 1(3) Cons.prems(2) by (simp add: grows_def)
  from Cons.IH [OF 1(2) this] obtain h' where
    2: "addPaths h1 gpn ps = Some h'" "inv_trie ic h'" "grows h1 h'" by blast
  show ?case using 1 2 grows_trans by auto
qed

lemma inv_trie_new: "inv_trie ic (fst (newGlobPathNode [] ic))"
  by (simp add: newGlobPathNode_def inv_trie_def inv_valid_def inv_noshare_def inv_oneShot_def
      inv_nodeChar_def inv_icase_def subtreeAt_def)

lemma build_inv: "\<exists>h. build ic ps = Some h \<and> inv_trie ic h"
  using addPaths_grows [OF inv_trie_new, of 0 ic ps]
  by (auto simp add: build_def newGlobPathNode_def)

lemma foldCase_eq_iff [simp]:
  "foldCase ic b = 42 \<longleftrightarrow> b = 42" "foldCase ic b = globChar \<longleftrightarrow> b = globChar"
  by (auto simp add: foldCase_def globChar_def word_le_nat_alt word_unat_eq_iff unat_word_ariths)

lemma pathKey_literal: "b \<noteq> 42 \<Longrightarrow> pathKey ic b = foldCase ic b"
  by (simp add: pathKey_def)

lemma terminal_persists:
  "\<exists>h t. build ic (ps @ p # qs) = Some h \<and> inv_trie ic h \<and> t < length h \<and>
     walk h 0 (map (pathKey ic) p) = Some t \<and> canMatch (h ! t)"
proof -
  let ?h0 = "fst (newGlobPathNode [] ic)"
  from addPaths_grows [OF inv_trie_new, of 0 ic ps] obtain h1 where
    1: "addPaths ?h0 0 ps = Some h1" "inv_trie ic h1" "grows ?h0 h1"
    by (auto simp add: newGlobPathNode_def)
  have l1: "0 < length h1" using 1(2) by (simp add: inv_trie_def)
  from addPath_grows [OF 1(2) l1, of p] obtain h2 t where
    2: "addPath h1 0 p = Some (None, h2)" "inv_trie ic h2" "grows h1 h2" "t < length h2"
      "walk h2 0 (map (pathKey ic) p) = Some t" "canMatch (h2 ! t)"
    by blast
  have l2: "0 < length h2" using 2(2) by (simp add: inv_trie_def)
  from addPaths_grows [OF 2(2) l2, of qs] obtain h3 where
    3: "addPaths h2 0 qs = Some h3" "inv_trie ic h3" "grows h2 h3" by blast
  have w: "walk h3 0 (map (pathKey ic) p) = Some t"
    using walk_grows [OF 3(3) _ l2 2(5)] 2(2) by (simp add: inv_trie_def)
  have c: "canMatch (h3 ! t)" "t < length h3" using 3(3) 2(4,6) by (simp_all add: grows_def)
  moreover have "build ic (ps @ p # qs) = Some h3"
    using 1(1) 2(1) 3(1) by (simp add: build_def addPaths_append)
  ultimately show ?thesis using w 3(2) by blast
qed

lemma persists:
  assumes p: "42 \<notin> set p" "globChar \<notin> set p"
  shows "\<exists>h. build ic (ps @ p # qs) = Some h \<and> checkPath h 0 p 0 (length p) = Some True"
proof -
  from terminal_persists [of ic ps p qs] obtain h t where
    h: "build ic (ps @ p # qs) = Some h" "inv_trie ic h" "t < length h"
      "walk h 0 (map (pathKey ic) p) = Some t" "canMatch (h ! t)"
    by blast
  have l: "0 < length h" using h(2) by (simp add: inv_trie_def)
  have keys: "map (pathKey ic) p = map (foldCase ic) p"
    using p(1) by (induction p) (simp_all add: pathKey_literal)
  have w: "walk h 0 (map (foldCase ic) (drop 0 p)) = Some t"
    using h(4) keys by simp
  have g: "globChar \<notin> foldCase ic ` set (drop 0 p)"
    using p(2) foldCase_eq_iff(2) [of ic] by (metis drop0 image_iff)
  have "checkPath_loop h 0 0 p 0 (length p) = Some True"
    using checkPath_loop_literal [OF _ _ _ _ w h(5) g l, of 0] h(2) l
    by (simp add: inv_trie_def inv_icase_def)
  then show ?thesis using h(1) by (simp add: checkPath_def)
qed

lemma addPath_body_noglob:
  assumes val: "inv_valid h" and ng: "inv_noglob h" and cur: "curnode < length h"
    and res: "addPath_body h gpn curnode b = Some (h', v)"
    and b: "b \<noteq> 42" "b \<noteq> globChar"
  shows "inv_noglob h'"
proof -
  obtain subt where sub: "subtrees (h ! curnode) = Some subt"
    using inv_validD [OF val cur] by metis
  note f = addPath_body_fields' [OF val cur sub res]
  note e = addPath_body_subtreeAt [OF val cur res]
  have k: "pathKey (icase (h ! gpn)) b \<noteq> globChar" using b by (simp add: pathKey_def)
  have p: "foldCase (icase (h ! gpn)) b \<noteq> 42" using b by simp
  show ?thesis
    unfolding inv_noglob_def
  proof (intro allI impI)
    fix a assume a: "a < length h'"
    show "\<not> hasGlobChild (h' ! a) \<and> \<not> isGlob (h' ! a) \<and> subtreeAt h' a globChar = None"
      using f(8) [OF a] f(9) [OF a] e [OF a, of globChar] k p ng
      by (auto simp add: inv_noglob_def)
  qed
qed

lemma addPath_loop_noglob:
  assumes "inv_trie ic h" "inv_noglob h" "gpn < length h" "curnode < length h"
    and "42 \<notin> set s" "globChar \<notin> set s"
    and "addPath_loop h gpn curnode s = Some (h', t)"
  shows "inv_noglob h'"
  using assms
proof (induction s arbitrary: h curnode)
  case Nil
  then show ?case by simp
next
  case (Cons b s)
  from addPath_body_inv [OF Cons.prems(1,3,4), of b] obtain h1 v where
    body: "addPath_body h gpn curnode b = Some (h1, v)" and inv1: "inv_trie ic h1"
    and ext1: "ext h h1" and v: "v < length h1"
    by blast
  have val: "inv_valid h" using Cons.prems(1) by (simp add: inv_trie_def)
  have ng1: "inv_noglob h1"
    using addPath_body_noglob [OF val Cons.prems(2,4) body] Cons.prems(5,6) by auto
  have gpn1: "gpn < length h1" using ext1 Cons.prems(3) by (simp add: ext_def)
  show ?case
    using Cons.IH [OF inv1 ng1 gpn1 v] Cons.prems(5,6,7) body by simp
qed

lemma pathKey_fold: "42 \<notin> set p \<Longrightarrow> map (pathKey ic) p = map (foldCase ic) p"
  by (induction p) (simp_all add: pathKey_literal)

lemma foldCase_plain: "map (foldCase False) p = p"
  by (induction p) (simp_all add: foldCase_def)

lemma addPath_lang:
  assumes inv: "inv_trie ic h" and ng: "inv_noglob h"
    and p: "42 \<notin> set p" "globChar \<notin> set p"
  shows "\<exists>h''. addPath h 0 p = Some (None, h'') \<and> inv_trie ic h'' \<and> inv_noglob h'' \<and>
           (\<forall>w. accepts h'' w \<longleftrightarrow> w = map (foldCase ic) p \<or> accepts h w)"
proof -
  have l0: "0 < length h" and val: "inv_valid h" using inv by (simp_all add: inv_trie_def)
  from addPath_trie [OF inv l0, of p] obtain h' t where
    l: "addPath_loop h 0 0 p = Some (h', t)"
      "addPath h 0 p = Some (None, h'[t := (h' ! t)\<lparr>canMatch := True\<rparr>])"
      "inv_trie ic h'" "ext h h'" "t < length h'"
      "walk h' 0 (map (pathKey ic) p) = Some t"
    by blast
  let ?h = "h'[t := (h' ! t)\<lparr>canMatch := True\<rparr>]"
  let ?p = "map (foldCase ic) p"
  have val': "inv_valid h'" and ns': "inv_noshare h'" and ne': "h' \<noteq> []" and l0': "0 < length h'"
    using l(3) by (simp_all add: inv_trie_def)
  have wp: "walk h' 0 ?p = Some t" using l(6) p(1) by (simp add: pathKey_fold)
  have ng': "inv_noglob ?h"
    using setMatch_noglob [OF l(5) addPath_loop_noglob [OF inv ng l0 l0 p l(1)]] .
  have cm: "\<And>a. a < length h' \<Longrightarrow> canMatch (h' ! a) = (a < length h \<and> canMatch (h ! a))"
    using l(4) by (simp add: ext_def)
  have "accepts ?h w \<longleftrightarrow> w = ?p \<or> accepts h w" for w
  proof
    assume "accepts ?h w"
    then obtain x where x: "walk h' 0 w = Some x" "canMatch (h' ! x) \<or> x = t"
      using l(5) by (auto simp add: accepts_def setMatch_walk setMatch_fields split: option.splits)
    have xl: "x < length h'" using walk_valid [OF val' l0' x(1)] by simp
    show "w = ?p \<or> accepts h w"
    proof (cases "x = t")
      case True
      then show ?thesis using walk_unique [OF val' ns' ne' x(1)] wp by simp
    next
      case False
      then have "x < length h" "canMatch (h ! x)" using x(2) cm [OF xl] by simp_all
      then show ?thesis using walk_back [OF l(4) val' l0' x(1)] by (simp add: accepts_def)
    qed
  next
    assume "w = ?p \<or> accepts h w"
    then show "accepts ?h w"
    proof
      assume "w = ?p"
      then show ?thesis using wp l(5) by (simp add: accepts_def setMatch_walk setMatch_fields)
    next
      assume "accepts h w"
      then obtain x where x: "walk h 0 w = Some x" "canMatch (h ! x)"
        by (auto simp add: accepts_def split: option.splits)
      have xl: "x < length h" using walk_valid [OF val l0 x(1)] by simp
      then have "x < length h'" using l(4) by (simp add: ext_def)
      then have "canMatch (h' ! x)" using cm xl x(2) by simp
      then show ?thesis using walk_ext [OF l(4) val l0 x(1)] l(5)
        by (simp add: accepts_def setMatch_walk setMatch_fields)
    qed
  qed
  then show ?thesis using l(2) setMatch_inv [OF l(5) l(3)] ng' by blast
qed

lemma addPaths_lang:
  assumes "inv_trie ic h" "inv_noglob h" "\<forall>p\<in>set ps. 42 \<notin> set p \<and> globChar \<notin> set p"
  shows "\<exists>h'. addPaths h 0 ps = Some h' \<and> inv_trie ic h' \<and> inv_noglob h' \<and>
           (\<forall>w. accepts h' w \<longleftrightarrow> w \<in> map (foldCase ic) ` set ps \<or> accepts h w)"
  using assms
proof (induction ps arbitrary: h)
  case Nil
  then show ?case by simp
next
  case (Cons p ps)
  from addPath_lang [OF Cons.prems(1,2), of p] Cons.prems(3) obtain h1 where
    1: "addPath h 0 p = Some (None, h1)" "inv_trie ic h1" "inv_noglob h1"
      "\<And>w. accepts h1 w \<longleftrightarrow> w = map (foldCase ic) p \<or> accepts h w"
    by auto
  from Cons.IH [OF 1(2,3)] Cons.prems(3) obtain h' where
    2: "addPaths h1 0 ps = Some h'" "inv_trie ic h'" "inv_noglob h'"
      "\<And>w. accepts h' w \<longleftrightarrow> w \<in> map (foldCase ic) ` set ps \<or> accepts h1 w"
    by auto
  show ?case using 1 2 by auto
qed

lemma accepts_new: "\<not> accepts (fst (newGlobPathNode [] ic)) w"
  by (cases w) (simp_all add: accepts_def newGlobPathNode_def subtreeAt_def)

lemma inv_noglob_new: "inv_noglob (fst (newGlobPathNode [] ic))"
  by (simp add: inv_noglob_def newGlobPathNode_def subtreeAt_def)

lemma build_exact_fold:
  assumes "\<forall>p\<in>set ps. 42 \<notin> set p \<and> globChar \<notin> set p"
  shows "\<exists>h. build ic ps = Some h \<and>
     checkPath h 0 s 0 (length s) = Some (map (foldCase ic) s \<in> map (foldCase ic) ` set ps)"
proof -
  from addPaths_lang [OF inv_trie_new inv_noglob_new assms, of ic] obtain h where
    h: "build ic ps = Some h" "inv_trie ic h" "inv_noglob h"
      "\<And>w. accepts h w \<longleftrightarrow> w \<in> map (foldCase ic) ` set ps"
    by (auto simp add: build_def accepts_new)
  have l0: "0 < length h" using h(2) by (simp add: inv_trie_def)
  have "checkPath_loop h 0 0 s 0 (length s) =
      Some (case walk h 0 (map (foldCase ic) (drop 0 s)) of
              Some t \<Rightarrow> canMatch (h ! t) | None \<Rightarrow> False)"
    using checkPath_loop_exact_fold [OF _ _ _ h(3) _ l0, of 0 ic] h(2) l0
    by (simp add: inv_trie_def inv_icase_def)
  then show ?thesis using h(1) h(4) [of "map (foldCase ic) s"]
    by (simp add: checkPath_def accepts_def)
qed

lemma build_exact:
  assumes "\<forall>p\<in>set ps. 42 \<notin> set p \<and> globChar \<notin> set p"
  shows "\<exists>h. build False ps = Some h \<and> checkPath h 0 s 0 (length s) = Some (s \<in> set ps)"
  using build_exact_fold [OF assms, of False s] by (simp add: foldCase_plain)

subsection \<open>Case folding\<close>

lemma foldCase_idem: "foldCase ic (foldCase ic b) = foldCase ic b"
  by (auto simp add: foldCase_def word_le_nat_alt word_unat_eq_iff unat_word_ariths)

lemma addPath_body_fold:
  "addPath_body h gpn curnode (foldCase (icase (h ! gpn)) b) = addPath_body h gpn curnode b"
  by (simp add: addPath_body_def foldCase_idem)

lemma addPath_body_fold_eq:
  "foldCase (icase (h ! gpn)) b = foldCase (icase (h ! gpn)) b' \<Longrightarrow>
     addPath_body h gpn curnode b = addPath_body h gpn curnode b'"
  using addPath_body_fold [of h gpn curnode b] addPath_body_fold [of h gpn curnode b'] by simp

lemma addPath_loop_fold_eq:
  assumes "inv_trie ic h" "gpn < length h" "curnode < length h"
    and "map (foldCase ic) s = map (foldCase ic) s'"
  shows "addPath_loop h gpn curnode s = addPath_loop h gpn curnode s'"
  using assms
proof (induction s arbitrary: s' h curnode)
  case Nil
  then show ?case by simp
next
  case (Cons b s)
  then obtain b' t' where s': "s' = b' # t'" "foldCase ic b = foldCase ic b'"
    "map (foldCase ic) s = map (foldCase ic) t'"
    by (cases s') auto
  have ic: "icase (h ! gpn) = ic" using Cons.prems(1,2) by (simp add: inv_trie_def inv_icase_def)
  have eq: "addPath_body h gpn curnode b = addPath_body h gpn curnode b'"
    using addPath_body_fold_eq [of h gpn b b' curnode] s'(2) ic by simp
  from addPath_body_inv [OF Cons.prems(1,2,3), of b] obtain h1 v where
    body: "addPath_body h gpn curnode b = Some (h1, v)" and inv1: "inv_trie ic h1"
    and ext1: "ext h h1" and v: "v < length h1"
    by blast
  have gpn1: "gpn < length h1" using ext1 Cons.prems(2) by (simp add: ext_def)
  show ?case
    using Cons.IH [OF inv1 gpn1 v s'(3)] body eq s'(1) by simp
qed

lemma addPath_fold_eq:
  assumes "inv_trie ic h" "gpn < length h" "map (foldCase ic) s = map (foldCase ic) s'"
  shows "addPath h gpn s = addPath h gpn s'"
  using addPath_loop_fold_eq [OF assms(1,2,2,3)] by (simp add: addPath_def)

lemma addPaths_fold_eq:
  assumes "inv_trie ic h" "gpn < length h"
    and "map (map (foldCase ic)) ps = map (map (foldCase ic)) ps'"
  shows "addPaths h gpn ps = addPaths h gpn ps'"
  using assms
proof (induction ps arbitrary: ps' h)
  case Nil
  then show ?case by simp
next
  case (Cons p ps)
  then obtain p' qs where ps': "ps' = p' # qs" "map (foldCase ic) p = map (foldCase ic) p'"
    "map (map (foldCase ic)) ps = map (map (foldCase ic)) qs"
    by (cases ps') auto
  have eq: "addPath h gpn p = addPath h gpn p'"
    by (rule addPath_fold_eq [OF Cons.prems(1,2) ps'(2)])
  from addPath_grows [OF Cons.prems(1,2), of p] obtain h1 where
    1: "addPath h gpn p = Some (None, h1)" "inv_trie ic h1" "grows h h1" by blast
  have "gpn < length h1" using 1(3) Cons.prems(2) by (simp add: grows_def)
  then show ?case using Cons.IH [OF 1(2) _ ps'(3)] 1(1) eq ps'(1) by simp
qed

lemma build_fold_eq:
  "map (map (foldCase ic)) ps = map (map (foldCase ic)) ps' \<Longrightarrow> build ic ps = build ic ps'"
  unfolding build_def
  by (rule addPaths_fold_eq [OF inv_trie_new]) (simp_all add: newGlobPathNode_def)

lemma checkPath_loop_range:
  "i < mlen \<Longrightarrow> length s \<le> i \<Longrightarrow> checkPath_loop h gpn curnode s i mlen = None"
  by (subst checkPath_loop.simps) simp

lemma globConsume_loop_range:
  "i < mlen \<Longrightarrow> length s \<le> i \<Longrightarrow> globConsume_loop h gpn la st s i mlen = None"
  by (subst globConsume_loop.simps) simp

lemma nextNode_valid:
  assumes val: "inv_valid h" and os: "inv_oneShot h" and a: "a < length h"
    and n: "nextNode h a part = Some v"
  shows "v < length h"
proof -
  obtain m where m: "subtrees (h ! a) = Some m" using inv_validD [OF val a] by metis
  have o: "oneShot (h ! a) = (case m of [(k, b)] \<Rightarrow> Some b | _ \<Rightarrow> None)"
    using os a m by (simp add: inv_oneShot_def)
  show ?thesis
  proof (cases "oneShot (h ! a)")
    case None
    then show ?thesis using n subtreeAt_valid [OF val a] by (simp add: nextNode_def)
  next
    case (Some w)
    then have v: "v = w" using n by (simp add: nextNode_def split: if_splits)
    obtain k where "m = [(k, w)]" using o Some by (auto split: list.splits prod.splits)
    then have "subtreeAt h a k = Some w" using m by (simp add: subtreeAt_def)
    then show ?thesis using subtreeAt_valid [OF val a] v by blast
  qed
qed

lemma fold_eq_aux:
  assumes inv: "inv_trie ic h" and eq: "map (foldCase ic) s = map (foldCase ic) s'"
  shows "(\<forall>gpn curnode. gpn < length h \<longrightarrow> curnode < length h \<longrightarrow>
            checkPath_loop h gpn curnode s i mlen = checkPath_loop h gpn curnode s' i mlen) \<and>
         (\<forall>g<length h. globConsume h g s i mlen = globConsume h g s' i mlen) \<and>
         (\<forall>g<length h. \<forall>la st.
            globConsume_loop h g la st s i mlen = globConsume_loop h g la st s' i mlen)"
proof (induction "mlen - i" arbitrary: i)
  case 0
  then have i: "\<not> i < mlen" by simp
  show ?case
    by (simp add: checkPath_loop_end [OF i] globConsume_loop_end [OF i] globConsume.simps)
next
  case (Suc n)
  then have i: "i < mlen" and n: "n = mlen - (i + 1)" by simp_all
  have len: "length s = length s'" using eq by (rule map_eq_imp_length_eq)
  have val: "inv_valid h" and os: "inv_oneShot h"
    and ica: "\<And>a. a < length h \<Longrightarrow> icase (h ! a) = ic"
    using inv by (simp_all add: inv_trie_def inv_icase_def)
  from Suc.hyps(1) [OF n]
  have P': "\<And>gpn curnode. gpn < length h \<Longrightarrow> curnode < length h \<Longrightarrow>
            checkPath_loop h gpn curnode s (i + 1) mlen = checkPath_loop h gpn curnode s' (i + 1) mlen"
    and R': "\<And>g la st. g < length h \<Longrightarrow>
            globConsume_loop h g la st s (i + 1) mlen = globConsume_loop h g la st s' (i + 1) mlen"
    by blast+
  show ?case
  proof (cases "i < length s")
    case False
    then have r: "length s \<le> i" "length s' \<le> i" using len by simp_all
    have "globConsume_loop h g la st s i mlen = globConsume_loop h g la st s' i mlen" for g la st
      by (simp add: globConsume_loop_range [OF i] r)
    then show ?thesis
      by (simp add: checkPath_loop_range [OF i] r globConsume.simps)
  next
    case True
    then have i': "i < length s'" using len by simp
    have part: "foldCase ic (s ! i) = foldCase ic (s' ! i)"
      using eq True i' by (metis nth_map)
    have R: "globConsume_loop h g la st s i mlen = globConsume_loop h g la st s' i mlen"
      if g: "g < length h" for g la st
    proof -
      have "follow h g (foldCase ic (s ! i)) s i mlen = follow h g (foldCase ic (s ! i)) s' i mlen"
        using P' subtreeAt_valid [OF val g]
        by (auto simp add: follow_def split: option.split)
      then show ?thesis
        using R' [OF g] part ica [OF g]
        by (simp add: globConsume_loop_unfold [OF i True] globConsume_loop_unfold [OF i i']
            cong: option.case_cong bool.case_cong if_cong)
    qed
    have Q: "globConsume h g s i mlen = globConsume h g s' i mlen" if g: "g < length h" for g
      using R [OF g] by (simp add: globConsume.simps)
    have P: "checkPath_loop h gpn curnode s i mlen = checkPath_loop h gpn curnode s' i mlen"
      if gpn: "gpn < length h" and cur: "curnode < length h" for gpn curnode
    proof -
      have G: "globTry h curnode s i mlen = globTry h curnode s' i mlen"
        using Q subtreeAt_valid [OF val cur]
        by (auto simp add: globTry_def split: option.split)
      have N: "checkPath_loop h gpn v s (i + 1) mlen = checkPath_loop h gpn v s' (i + 1) mlen"
        if "nextNode h curnode (foldCase ic (s ! i)) = Some v" for v
        using P' [OF gpn nextNode_valid [OF val os cur that]] .
      show ?thesis
        using G N part ica [OF gpn]
        by (simp add: checkPath_loop_unfold [OF i True] checkPath_loop_unfold [OF i i']
            cong: option.case_cong bool.case_cong)
    qed
    show ?thesis using P Q R by blast
  qed
qed

lemma checkPath_fold_eq:
  assumes "inv_trie ic h" "gpn < length h" "map (foldCase ic) s = map (foldCase ic) s'"
  shows "checkPath h gpn s i mlen = checkPath h gpn s' i mlen"
  using fold_eq_aux [OF assms(1,3), of i mlen] assms(2) by (simp add: checkPath_def)

subsection \<open>Case variants and folding\<close>

lemma letters_zip:
  "(a, b) \<in> set (zip upperLetters lowerLetters) \<longleftrightarrow> 65 \<le> a \<and> a \<le> 90 \<and> b = a + 32"
proof
  assume "(a, b) \<in> set (zip upperLetters lowerLetters)"
  then show "65 \<le> a \<and> a \<le> 90 \<and> b = a + 32"
    by (auto simp add: upperLetters_def lowerLetters_def bytes_def)
next
  assume r: "65 \<le> a \<and> a \<le> 90 \<and> b = a + 32"
  then have "65 \<le> unat a" "unat a \<le> 90" by (simp_all add: word_le_nat_alt)
  then have "unat a \<in> set [65 ..< 91]" by (simp only: set_upt atLeastLessThan_iff) arith
  then have "a \<in> of_nat ` set [65 ..< 91]" by (metis imageI of_nat_unat ucast_id)
  then have "a \<in> set upperLetters"
    by (simp add: upperLetters_def bytes_def upt_conv_Cons)
  then show "(a, b) \<in> set (zip upperLetters lowerLetters)"
    using r by (auto simp add: upperLetters_def lowerLetters_def bytes_def)
qed

lemma sameLetter_iff_fold: "sameLetter a b \<longleftrightarrow> foldCase True a = foldCase True b"
  unfolding sameLetter_def letters_zip
  by (auto simp add: foldCase_def word_le_nat_alt word_unat_eq_iff unat_word_ariths)

lemma caseVariant_iff_fold:
  "caseVariant s t \<longleftrightarrow> map (foldCase True) s = map (foldCase True) t"
  unfolding caseVariant_def
proof (induction s arbitrary: t)
  case Nil
  then show ?case by simp
next
  case (Cons a s)
  then show ?case by (cases t) (simp_all add: sameLetter_iff_fold)
qed

lemma caseVariants_iff_fold:
  "list_all2 caseVariant ps qs \<longleftrightarrow>
     map (map (foldCase True)) ps = map (map (foldCase True)) qs"
proof (induction ps arbitrary: qs)
  case Nil
  then show ?case by simp
next
  case (Cons p ps)
  then show ?case by (cases qs) (simp_all add: caseVariant_iff_fold)
qed

declare checkPathSt_loop.simps [simp del] globConsumeSt.simps [simp del]
  globConsumeSt_loop.simps [simp del]

subsection \<open>The threaded queries\<close>

lemma pull_if: "(if c then (a, h) else (b, h)) = ((if c then a else b), h)"
  by simp

lemma pull_option:
  "(case x of None \<Rightarrow> (a, h) | Some v \<Rightarrow> (f v, h)) = ((case x of None \<Rightarrow> a | Some v \<Rightarrow> f v), h)"
  by (cases x) simp_all

lemma pull_bool:
  "(case b of True \<Rightarrow> (x, h) | False \<Rightarrow> (y, h)) = ((case b of True \<Rightarrow> x | False \<Rightarrow> y), h)"
  by (cases b) simp_all

lemma threaded_aux:
  "(\<forall>gpn curnode. checkPathSt_loop h gpn curnode s i mlen =
        (checkPath_loop h gpn curnode s i mlen, h)) \<and>
   (\<forall>g. globConsumeSt h g s i mlen = (globConsume h g s i mlen, h)) \<and>
   (\<forall>g la st. globConsumeSt_loop h g la st s i mlen = (globConsume_loop h g la st s i mlen, h))"
proof (induction "mlen - i" arbitrary: i)
  case 0
  then have i: "\<not> i < mlen" by simp
  have R: "\<And>g la st. globConsumeSt_loop h g la st s i mlen = (globConsume_loop h g la st s i mlen, h)"
    by (subst globConsumeSt_loop.simps, subst globConsume_loop.simps) (simp add: i)
  have Q: "\<And>g. globConsumeSt h g s i mlen = (globConsume h g s i mlen, h)"
    by (subst globConsumeSt.simps, subst globConsume.simps) (simp add: R)
  have P: "\<And>gpn curnode. checkPathSt_loop h gpn curnode s i mlen =
        (checkPath_loop h gpn curnode s i mlen, h)"
    by (subst checkPathSt_loop.simps, subst checkPath_loop.simps) (simp add: i)
  show ?case using P Q R by blast
next
  case (Suc n)
  then have i: "i < mlen" and n: "n = mlen - (i + 1)" by simp_all
  from Suc.hyps(1) [OF n]
  have P': "\<And>gpn curnode. checkPathSt_loop h gpn curnode s (Suc i) mlen =
        (checkPath_loop h gpn curnode s (Suc i) mlen, h)"
    and R': "\<And>g la st. globConsumeSt_loop h g la st s (Suc i) mlen =
        (globConsume_loop h g la st s (Suc i) mlen, h)"
    by simp_all
  have R: "globConsumeSt_loop h g la st s i mlen = (globConsume_loop h g la st s i mlen, h)"
    for g la st
    by (subst globConsumeSt_loop.simps, subst globConsume_loop.simps)
       (simp add: P' R' Let_def pull_if pull_option pull_bool
          cong: option.case_cong bool.case_cong if_cong)
  have Q: "\<And>g. globConsumeSt h g s i mlen = (globConsume h g s i mlen, h)"
    by (subst globConsumeSt.simps, subst globConsume.simps) (simp add: R)
  have P: "checkPathSt_loop h gpn curnode s i mlen = (checkPath_loop h gpn curnode s i mlen, h)"
    for gpn curnode
    by (subst checkPathSt_loop.simps, subst checkPath_loop.simps)
       (simp add: P' Q Let_def pull_if pull_option pull_bool
          cong: option.case_cong bool.case_cong if_cong)
  show ?case using P Q R by blast
qed

subsection \<open>The calls of the queries\<close>

lemma call_decreases:
  "checkPath_loop_globConsume_globConsume_loop_rel y x \<Longrightarrow> callMeasure y < callMeasure x"
  by (erule checkPath_loop_globConsume_globConsume_loop_rel.cases) (auto simp add: callMeasure_def)

lemma call_from_globConsume:
  "checkPath_loop_globConsume_globConsume_loop_rel (Inl (h', g', c', s', j, m'))
      (Inr (Inr (h, g, la, st, s, i, m))) \<Longrightarrow> j = i + 1 \<and> i < m \<and> m' = m"
  by (erule checkPath_loop_globConsume_globConsume_loop_rel.cases) auto

lemma call_to_globConsume:
  "checkPath_loop_globConsume_globConsume_loop_rel (Inr (Inl (h', v, s', j, m')))
      (Inl (h, g, c, s, i, m)) \<Longrightarrow> j = i \<and> i < m \<and> m' = m"
  by (erule checkPath_loop_globConsume_globConsume_loop_rel.cases) auto

lemma all_calls_terminate: "checkPath_loop_globConsume_globConsume_loop_dom x"
  by (rule accp_wfpD, rule wfp_if_convertible_to_nat [of _ callMeasure]) (rule call_decreases)

subsection \<open>The signature codec\<close>

lemma split4:
  "n div 262144 * 262144 + n div 4096 mod 64 * 4096 + n div 64 mod 64 * 64 + n mod 64 = (n::nat)"
proof -
  define m1 where "m1 = n div 64"
  define m2 where "m2 = m1 div 64"
  define m3 where "m3 = m2 div 64"
  have d: "n div 4096 = m2" "n div 262144 = m3"
    by (simp_all add: m1_def m2_def m3_def div_mult2_eq)
  have "n = m1 * 64 + n mod 64" by (simp add: m1_def)
  moreover have "m1 = m2 * 64 + m1 mod 64" by (simp add: m2_def)
  moreover have "m2 = m3 * 64 + m2 mod 64" by (simp add: m3_def)
  ultimately have "n = ((m3 * 64 + m2 mod 64) * 64 + m1 mod 64) * 64 + n mod 64" by simp
  then show ?thesis unfolding d m1_def [symmetric] by (simp add: algebra_simps)
qed

lemma join3:
  assumes "a < 256" "b < 256" "c < (256::nat)"
  shows "(a * 65536 + b * 256 + c) div 65536 = a"
    and "(a * 65536 + b * 256 + c) div 256 mod 256 = b"
    and "(a * 65536 + b * 256 + c) mod 256 = c"
proof -
  define m where "m = a * 256 + b"
  have 1: "a * 65536 + b * 256 + c = m * 256 + c" by (simp add: m_def)
  have 2: "(m * 256 + c) div 256 = m" using assms(3) by simp
  have 3: "m div 256 = a" "m mod 256 = b" using assms(2) by (simp_all add: m_def)
  have 4: "(m * 256 + c) mod 256 = c" using assms(3) by simp
  show "(a * 65536 + b * 256 + c) mod 256 = c" by (simp only: 1 4)
  show "(a * 65536 + b * 256 + c) div 256 mod 256 = b" by (simp only: 1 2 3)
  have "(m * 256 + c) div 65536 = (m * 256 + c) div 256 div 256"
    by (simp add: div_mult2_eq)
  then show "(a * 65536 + b * 256 + c) div 65536 = a" by (simp only: 1 2 3)
qed

lemma split3:
  "(n div 4096 * 4096 + n div 64 mod 64 * 64 + n mod 64) = (n::nat)"
proof -
  define m1 where "m1 = n div 64"
  define m2 where "m2 = m1 div 64"
  have d: "n div 4096 = m2" by (simp add: m1_def m2_def div_mult2_eq)
  have "n = m1 * 64 + n mod 64" by (simp add: m1_def)
  moreover have "m1 = m2 * 64 + m1 mod 64" by (simp add: m2_def)
  ultimately have "n = (m2 * 64 + m1 mod 64) * 64 + n mod 64" by simp
  then show ?thesis unfolding d m1_def [symmetric] by (simp add: algebra_simps)
qed

lemma join2:
  assumes "b < (256::nat)"
  shows "(a * 256 + b) * 4 div 4 div 256 = a" and "(a * 256 + b) * 4 div 4 mod 256 = b"
  using assms by simp_all

lemma split2: "(n div 64 * 64 + n mod 64) = (n::nat)"
  by simp

lemma unat_byte: "unat (a :: byte) < 256"
  using unsigned_less [of a, where ?'a = nat] by simp

lemma sextets_lt: "n \<in> set (sextets bs) \<Longrightarrow> n < 64"
proof (induction bs rule: sextets.induct)
  case (1 a b c r)
  have "unat a * 65536 + unat b * 256 + unat c < 16777216"
    using unat_byte [of a] unat_byte [of b] unat_byte [of c] by simp
  then have "(unat a * 65536 + unat b * 256 + unat c) div 262144 < 64" by simp
  then show ?case using 1 by (auto simp add: Let_def)
next
  case (2 a b)
  have "(unat a * 256 + unat b) * 4 < 262144"
    using unat_byte [of a] unat_byte [of b] by simp
  then have "(unat a * 256 + unat b) * 4 div 4096 < 64" by simp
  then show ?case using 2 by (auto simp add: Let_def)
next
  case (3 a)
  have "unat a * 16 < 4096" using unat_byte [of a] by simp
  then have "unat a * 16 div 64 < 64" by simp
  then show ?case using 3 by (auto simp add: Let_def)
next
  case 4
  then show ?case by simp
qed

lemma unsextets_group3:
  "unsextets ([n div 262144, n div 4096 mod 64, n div 64 mod 64, n mod 64] @ ns) =
     map_option ((@) [of_nat (n div 65536), of_nat (n div 256 mod 256), of_nat (n mod 256)])
       (unsextets ns)"
  by (simp add: Let_def split4)

lemma unsextets_group2:
  "unsextets [n div 4096, n div 64 mod 64, n mod 64] =
     Some [of_nat (n div 4 div 256), of_nat (n div 4 mod 256)]"
  by (simp add: Let_def split3)

lemma unsextets_group1: "unsextets [n div 64, n mod 64] = Some [of_nat (n div 16)]"
  by simp

lemma unsextets_sextets: "unsextets (sextets bs) = Some bs"
proof (induction bs rule: sextets.induct)
  case (1 a b c r)
  note j = join3 [OF unat_byte [of a] unat_byte [of b] unat_byte [of c]]
  show ?case
    by (simp only: sextets.simps Let_def unsextets_group3 j 1) simp
next
  case (2 a b)
  note j = join2 [OF unat_byte [of b], of "unat a"]
  show ?case
    by (simp only: sextets.simps Let_def unsextets_group2 j) simp
next
  case (3 a)
  show ?case
    by (simp only: sextets.simps Let_def unsextets_group1) simp
next
  case 4
  then show ?case by simp
qed

lemma indexOf_nth: "distinct xs \<Longrightarrow> n < length xs \<Longrightarrow> indexOf (xs ! n) xs = Some n"
proof (induction xs arbitrary: n)
  case Nil
  then show ?case by simp
next
  case (Cons x xs)
  then show ?case by (cases n) auto
qed

lemma b64alphabet_distinct: "distinct b64alphabet" and b64alphabet_length: "length b64alphabet = 64"
  by (simp_all add: b64alphabet_def bytes_def)

lemma those_indexOf:
  "(\<And>n. n \<in> set ns \<Longrightarrow> n < 64) \<Longrightarrow>
     those (map (\<lambda>c. indexOf c b64alphabet) (map (\<lambda>n. b64alphabet ! n) ns)) = Some ns"
  by (induction ns) (simp_all add: indexOf_nth b64alphabet_distinct b64alphabet_length)

lemma b64url_roundtrip: "b64url_decode (b64url_encode bs) = Some bs"
  using those_indexOf [of "sextets bs"] sextets_lt [of _ bs]
  by (simp add: b64url_decode_def b64url_encode_def unsextets_sextets del: map_map)

section \<open>The claims\<close>

text \<open>
  C1. For a case-sensitive trie built by any sequence of \<^verbatim>\<open>addPath\<close> calls
  whose patterns are printable ASCII without \<^verbatim>\<open>'*'\<close>, every call succeeds
  and \<^verbatim>\<open>checkPath\<close> of a candidate (any bytes) returns \<^verbatim>\<open>true\<close> exactly
  when the candidate is one of the inserted patterns. A proper prefix or a
  proper extension of a pattern is therefore rejected unless it was inserted
  itself.
\<close>

theorem exact_match_without_glob:
  assumes "\<forall>p\<in>set ps. \<forall>b\<in>set p. 32 \<le> b \<and> b \<le> 126 \<and> b \<noteq> 42"
  shows "\<exists>h. build False ps = Some h \<and> checkPath h 0 s 0 (length s) = Some (s \<in> set ps)"
proof -
  have "42 \<notin> set p \<and> globChar \<notin> set p" if p: "p \<in> set ps" for p
  proof -
    have *: "\<forall>b\<in>set p. 32 \<le> b \<and> b \<noteq> 42" using assms p by blast
    have "globChar \<notin> set p"
    proof
      assume "globChar \<in> set p"
      then have "32 \<le> globChar" using * by blast
      then show False by (simp add: globChar_def word_le_nat_alt)
    qed
    then show ?thesis using * by blast
  qed
  then show ?thesis using build_exact by blast
qed

theorem exact_match_without_glob_witness:
  "\<exists>h. build False [bytes ''ab'', bytes ''cd''] = Some h \<and>
        checkPath h 0 (bytes ''ab'') 0 (length (bytes ''ab'')) = Some True \<and>
        checkPath h 0 (bytes ''a'') 0 (length (bytes ''a'')) = Some False \<and>
        checkPath h 0 (bytes ''abc'') 0 (length (bytes ''abc'')) = Some False"
proof -
  have p: "\<forall>p\<in>set [bytes ''ab'', bytes ''cd'']. \<forall>b\<in>set p. 32 \<le> b \<and> b \<le> 126 \<and> b \<noteq> 42"
    by (simp add: bytes_def)
  have d: "bytes ''ab'' \<noteq> bytes ''cd''" "bytes ''a'' \<noteq> bytes ''ab''" "bytes ''a'' \<noteq> bytes ''cd''"
    "bytes ''abc'' \<noteq> bytes ''ab''" "bytes ''abc'' \<noteq> bytes ''cd''"
    by (simp_all add: bytes_def)
  show ?thesis
    using p d exact_match_without_glob [OF p, of "bytes ''ab''"]
      exact_match_without_glob [OF p, of "bytes ''a''"]
      exact_match_without_glob [OF p, of "bytes ''abc''"]
    by (auto simp add: bytes_def)
qed

text \<open>
  C2. A pattern \<open>p*\<close> is claimed to match \<open>p\<close> itself and \<open>p\<close> followed by any
  suffix. On the code the second half holds at the input below and the first
  fails: after \<^verbatim>\<open>addPath("ab*")\<close> on a fresh case-sensitive trie,
  \<^verbatim>\<open>checkPath("ab")\<close> is \<^verbatim>\<open>false\<close>. The walk ends on the node of \<^verbatim>\<open>b\<close>, which
  has a wildcard child but is neither \<^verbatim>\<open>canMatch\<close> nor \<^verbatim>\<open>isGlob\<close>; the
  wildcard child is only consulted inside the loop, which has no iteration left.
\<close>

theorem trailing_glob_rejects_bare_prefix:
  "build False [bytes ''ab*''] =
     Some [\<lparr>subtrees = Some [(97, 1)], oneShot = Some 1, isGlob = False, canMatch = False,
            hasGlobChild = False, nodeChar = 0, icase = False\<rparr>,
           \<lparr>subtrees = Some [(98, 2)], oneShot = Some 2, isGlob = False, canMatch = False,
            hasGlobChild = False, nodeChar = 97, icase = False\<rparr>,
           \<lparr>subtrees = Some [(1, 3)], oneShot = Some 3, isGlob = False, canMatch = False,
            hasGlobChild = True, nodeChar = 98, icase = False\<rparr>,
           \<lparr>subtrees = Some [], oneShot = None, isGlob = True, canMatch = True,
            hasGlobChild = False, nodeChar = 42, icase = False\<rparr>] \<and>
   checkPath
     [\<lparr>subtrees = Some [(97, 1)], oneShot = Some 1, isGlob = False, canMatch = False,
            hasGlobChild = False, nodeChar = 0, icase = False\<rparr>,
           \<lparr>subtrees = Some [(98, 2)], oneShot = Some 2, isGlob = False, canMatch = False,
            hasGlobChild = False, nodeChar = 97, icase = False\<rparr>,
           \<lparr>subtrees = Some [(1, 3)], oneShot = Some 3, isGlob = False, canMatch = False,
            hasGlobChild = True, nodeChar = 98, icase = False\<rparr>,
           \<lparr>subtrees = Some [], oneShot = None, isGlob = True, canMatch = True,
            hasGlobChild = False, nodeChar = 42, icase = False\<rparr>]
     0 (bytes ''ab'') 0 (length (bytes ''ab'')) = Some False \<and>
   checkPath
     [\<lparr>subtrees = Some [(97, 1)], oneShot = Some 1, isGlob = False, canMatch = False,
            hasGlobChild = False, nodeChar = 0, icase = False\<rparr>,
           \<lparr>subtrees = Some [(98, 2)], oneShot = Some 2, isGlob = False, canMatch = False,
            hasGlobChild = False, nodeChar = 97, icase = False\<rparr>,
           \<lparr>subtrees = Some [(1, 3)], oneShot = Some 3, isGlob = False, canMatch = False,
            hasGlobChild = True, nodeChar = 98, icase = False\<rparr>,
           \<lparr>subtrees = Some [], oneShot = None, isGlob = True, canMatch = True,
            hasGlobChild = False, nodeChar = 42, icase = False\<rparr>]
     0 (bytes ''abc'') 0 (length (bytes ''abc'')) = Some True"
  by code_simp

text \<open>
  C3. The fast path is claimed never to change the result. On the code it does:
  \<^verbatim>\<open>addPath\<close> stores \<^verbatim>\<open>'*'\<close> (42) in \<^verbatim>\<open>nodeChar\<close> of a wildcard node, while
  the fast path tests \<^verbatim>\<open>oneShot.nodeChar == globChar\<close> (1), so the test for
  "the only child is the wildcard" never fires and a literal \<^verbatim>\<open>'*'\<close> of the
  candidate steps into the wildcard node. With the pattern \<^verbatim>\<open>a*b\<close>
  and the candidate \<^verbatim>\<open>a*\<close>, wildcard consumption fails at the node of
  \<^verbatim>\<open>a\<close>, whose only child is the wildcard; \<^verbatim>\<open>checkPath\<close> returns
  \<^verbatim>\<open>true\<close>, and the keyed variant returns \<^verbatim>\<open>false\<close>.
\<close>

theorem fast_path_changes_result:
  "build False [bytes ''a*b''] =
     Some [\<lparr>subtrees = Some [(97, 1)], oneShot = Some 1, isGlob = False, canMatch = False,
            hasGlobChild = False, nodeChar = 0, icase = False\<rparr>,
           \<lparr>subtrees = Some [(1, 2)], oneShot = Some 2, isGlob = False, canMatch = False,
            hasGlobChild = True, nodeChar = 97, icase = False\<rparr>,
           \<lparr>subtrees = Some [(98, 3)], oneShot = Some 3, isGlob = True, canMatch = False,
            hasGlobChild = False, nodeChar = 42, icase = False\<rparr>,
           \<lparr>subtrees = Some [], oneShot = None, isGlob = False, canMatch = True,
            hasGlobChild = False, nodeChar = 98, icase = False\<rparr>] \<and>
   globConsume
     [\<lparr>subtrees = Some [(97, 1)], oneShot = Some 1, isGlob = False, canMatch = False,
            hasGlobChild = False, nodeChar = 0, icase = False\<rparr>,
           \<lparr>subtrees = Some [(1, 2)], oneShot = Some 2, isGlob = False, canMatch = False,
            hasGlobChild = True, nodeChar = 97, icase = False\<rparr>,
           \<lparr>subtrees = Some [(98, 3)], oneShot = Some 3, isGlob = True, canMatch = False,
            hasGlobChild = False, nodeChar = 42, icase = False\<rparr>,
           \<lparr>subtrees = Some [], oneShot = None, isGlob = False, canMatch = True,
            hasGlobChild = False, nodeChar = 98, icase = False\<rparr>]
     2 (bytes ''a*'') 1 (length (bytes ''a*'')) = Some False \<and>
   checkPath
     [\<lparr>subtrees = Some [(97, 1)], oneShot = Some 1, isGlob = False, canMatch = False,
            hasGlobChild = False, nodeChar = 0, icase = False\<rparr>,
           \<lparr>subtrees = Some [(1, 2)], oneShot = Some 2, isGlob = False, canMatch = False,
            hasGlobChild = True, nodeChar = 97, icase = False\<rparr>,
           \<lparr>subtrees = Some [(98, 3)], oneShot = Some 3, isGlob = True, canMatch = False,
            hasGlobChild = False, nodeChar = 42, icase = False\<rparr>,
           \<lparr>subtrees = Some [], oneShot = None, isGlob = False, canMatch = True,
            hasGlobChild = False, nodeChar = 98, icase = False\<rparr>]
     0 (bytes ''a*'') 0 (length (bytes ''a*'')) = Some True \<and>
   checkPathKeyed
     [\<lparr>subtrees = Some [(97, 1)], oneShot = Some 1, isGlob = False, canMatch = False,
            hasGlobChild = False, nodeChar = 0, icase = False\<rparr>,
           \<lparr>subtrees = Some [(1, 2)], oneShot = Some 2, isGlob = False, canMatch = False,
            hasGlobChild = True, nodeChar = 97, icase = False\<rparr>,
           \<lparr>subtrees = Some [(98, 3)], oneShot = Some 3, isGlob = True, canMatch = False,
            hasGlobChild = False, nodeChar = 42, icase = False\<rparr>,
           \<lparr>subtrees = Some [], oneShot = None, isGlob = False, canMatch = True,
            hasGlobChild = False, nodeChar = 98, icase = False\<rparr>]
     0 (bytes ''a*'') 0 (length (bytes ''a*'')) = Some False"
  by code_simp

text \<open>
  C4. In a case-insensitive trie the result of \<^verbatim>\<open>checkPath\<close> does not depend on
  the ASCII case of the letters of the inserted patterns or of the candidate. A
  change of case is \<open>caseVariant\<close>, stated on the 26 letters and not through
  the folding of the code: pattern lists that are case variants of each other
  build the same store, and candidates that are case variants of each other get
  the same answer, with or without wildcards. A case-insensitive trie of
  glob-free patterns accepts exactly the case variants of its patterns, so that
  nothing but the case of a letter is folded. \<^verbatim>\<open>Example.COM\<close> and
  \<^verbatim>\<open>example.com\<close> match each other in such a trie. In a case-sensitive trie
  of glob-free patterns a candidate that is not one of the patterns, such as
  \<^verbatim>\<open>example.com\<close> against \<^verbatim>\<open>Example.COM\<close>, does not match.
\<close>

theorem case_folding_invariance:
  "(list_all2 caseVariant ps ps' \<longrightarrow> caseVariant s s' \<longrightarrow>
      (\<exists>h b. build True ps = Some h \<and> build True ps' = Some h \<and>
         checkPath h 0 s 0 (length s) = Some b \<and> checkPath h 0 s' 0 (length s') = Some b)) \<and>
   ((\<forall>p\<in>set qs. 42 \<notin> set p \<and> 1 \<notin> set p) \<longrightarrow>
      (\<exists>h. build True qs = Some h \<and>
         checkPath h 0 s 0 (length s) = Some (\<exists>p\<in>set qs. caseVariant p s))) \<and>
   (\<exists>h. build True [bytes ''Example.COM''] = Some h \<and>
      checkPath h 0 (bytes ''example.com'') 0 (length (bytes ''example.com'')) = Some True) \<and>
   (\<exists>h. build True [bytes ''example.com''] = Some h \<and>
      checkPath h 0 (bytes ''Example.COM'') 0 (length (bytes ''Example.COM'')) = Some True) \<and>
   (\<exists>h. build False [bytes ''Example.COM''] = Some h \<and>
      checkPath h 0 (bytes ''example.com'') 0 (length (bytes ''example.com'')) = Some False) \<and>
   ((\<forall>p\<in>set qs. 42 \<notin> set p \<and> 1 \<notin> set p) \<longrightarrow> s \<notin> set qs \<longrightarrow>
      (\<exists>h. build False qs = Some h \<and> checkPath h 0 s 0 (length s) = Some False))"
proof -
  have general: "\<exists>h b. build True ps = Some h \<and> build True ps' = Some h \<and>
         checkPath h 0 s 0 (length s) = Some b \<and> checkPath h 0 s' 0 (length s') = Some b"
    if cps: "list_all2 caseVariant ps ps'" and cs: "caseVariant s s'"
    for ps ps' s s'
  proof -
    have ps: "map (map (foldCase True)) ps = map (map (foldCase True)) ps'"
      using cps by (simp add: caseVariants_iff_fold)
    have s: "map (foldCase True) s = map (foldCase True) s'"
      using cs by (simp add: caseVariant_iff_fold)
    obtain h where h: "build True ps = Some h" "inv_trie True h" using build_inv by blast
    have l0: "0 < length h" using h(2) by (simp add: inv_trie_def)
    have len: "length s = length s'" using s by (rule map_eq_imp_length_eq)
    obtain b where b: "checkPath h 0 s 0 (length s) = Some b"
      using checkPath_loop_no_panic [of "length s" s h 0 0 0] by (auto simp add: checkPath_def)
    have "checkPath h 0 s' 0 (length s') = Some b"
      using checkPath_fold_eq [OF h(2) l0 s, of 0 "length s"] b len by simp
    then show ?thesis using h(1) b build_fold_eq [OF ps] by auto
  qed
  have exact: "\<exists>h. build True qs = Some h \<and>
         checkPath h 0 s 0 (length s) = Some (\<exists>p\<in>set qs. caseVariant p s)"
    if "\<forall>p\<in>set qs. 42 \<notin> set p \<and> 1 \<notin> set p" for qs s
  proof -
    have "map (foldCase True) s \<in> map (foldCase True) ` set qs \<longleftrightarrow>
        (\<exists>p\<in>set qs. caseVariant p s)"
      unfolding caseVariant_iff_fold image_iff by metis
    then show ?thesis using build_exact_fold [of qs True s] that by (simp add: globChar_def)
  qed
  have v: "caseVariant (bytes ''Example.COM'') (bytes ''example.com'')"
    "caseVariant (bytes ''example.com'') (bytes ''Example.COM'')"
    by (simp_all add: caseVariant_def sameLetter_def upperLetters_def lowerLetters_def bytes_def)
  have p: "\<forall>p\<in>set [bytes ''Example.COM'']. 42 \<notin> set p \<and> 1 \<notin> set p"
    "\<forall>p\<in>set [bytes ''example.com'']. 42 \<notin> set p \<and> 1 \<notin> set p"
    by (simp_all add: bytes_def)
  have 1: "\<exists>h. build True [bytes ''Example.COM''] = Some h \<and>
      checkPath h 0 (bytes ''example.com'') 0 (length (bytes ''example.com'')) = Some True"
    using exact [OF p(1), of "bytes ''example.com''"] v(1) by simp
  have 2: "\<exists>h. build True [bytes ''example.com''] = Some h \<and>
      checkPath h 0 (bytes ''Example.COM'') 0 (length (bytes ''Example.COM'')) = Some True"
    using exact [OF p(2), of "bytes ''Example.COM''"] v(2) by simp
  have sens: "\<exists>h. build False qs = Some h \<and> checkPath h 0 s 0 (length s) = Some False"
    if "\<forall>p\<in>set qs. 42 \<notin> set p \<and> 1 \<notin> set p" "s \<notin> set qs" for qs s
    using build_exact [of qs s] that by (simp add: globChar_def)
  have 3: "\<exists>h. build False [bytes ''Example.COM''] = Some h \<and>
      checkPath h 0 (bytes ''example.com'') 0 (length (bytes ''example.com'')) = Some False"
    using sens [OF p(1), of "bytes ''example.com''"] by (simp add: bytes_def)
  show ?thesis using general exact 1 2 3 sens by blast
qed

theorem case_folding_invariance_witness:
  "(\<exists>h. build True [bytes ''Example.COM'', bytes ''*.Go''] = Some h \<and>
      build True [bytes ''eXAMPLE.com'', bytes ''*.gO''] = Some h \<and>
      checkPath h 0 (bytes ''www.GO'') 0 (length (bytes ''www.GO'')) = Some True \<and>
      checkPath h 0 (bytes ''WWW.go'') 0 (length (bytes ''WWW.go'')) = Some True) \<and>
   (\<exists>h. build True [bytes ''Zoo.com'', bytes ''@[''] = Some h \<and>
      checkPath h 0 (bytes ''zOO.COM'') 0 (length (bytes ''zOO.COM'')) = Some True \<and>
      checkPath h 0 (bytes ''`{'') 0 (length (bytes ''`{'')) = Some False) \<and>
   (\<exists>h. build False [bytes ''Zoo.com'', bytes ''@[''] = Some h \<and>
      checkPath h 0 (bytes ''zOO.COM'') 0 (length (bytes ''zOO.COM'')) = Some False)"
proof -
  have v: "list_all2 caseVariant [bytes ''Example.COM'', bytes ''*.Go'']
       [bytes ''eXAMPLE.com'', bytes ''*.gO'']"
    "caseVariant (bytes ''www.GO'') (bytes ''WWW.go'')"
    by (simp_all add: caseVariant_def sameLetter_def upperLetters_def lowerLetters_def bytes_def)
  have t: "(case build True [bytes ''Example.COM'', bytes ''*.Go''] of
        None \<Rightarrow> None
      | Some h \<Rightarrow> checkPath h 0 (bytes ''www.GO'') 0 (length (bytes ''www.GO''))) = Some True"
    by code_simp
  have p: "\<forall>p\<in>set [bytes ''Zoo.com'', bytes ''@['']. 42 \<notin> set p \<and> 1 \<notin> set p"
    by (simp add: bytes_def)
  have y: "\<exists>p\<in>set [bytes ''Zoo.com'', bytes ''@['']. caseVariant p (bytes ''zOO.COM'')"
    by (simp add: caseVariant_def sameLetter_def upperLetters_def lowerLetters_def bytes_def)
  have n: "\<not> (\<exists>p\<in>set [bytes ''Zoo.com'', bytes ''@['']. caseVariant p (bytes ''`{''))"
    by (simp add: caseVariant_def sameLetter_def upperLetters_def lowerLetters_def bytes_def)
  have d: "bytes ''zOO.COM'' \<notin> set [bytes ''Zoo.com'', bytes ''@['']"
    by (simp add: bytes_def)
  from v case_folding_invariance
      [of "[bytes ''Example.COM'', bytes ''*.Go'']" "[bytes ''eXAMPLE.com'', bytes ''*.gO'']"
          "bytes ''www.GO''" "bytes ''WWW.go''" "[]"]
  obtain h b where h: "build True [bytes ''Example.COM'', bytes ''*.Go''] = Some h"
    "build True [bytes ''eXAMPLE.com'', bytes ''*.gO''] = Some h"
    "checkPath h 0 (bytes ''www.GO'') 0 (length (bytes ''www.GO'')) = Some b"
    "checkPath h 0 (bytes ''WWW.go'') 0 (length (bytes ''WWW.go'')) = Some b"
    by blast
  have "b = True" using t h(1,3) by simp
  then have 1: "\<exists>h. build True [bytes ''Example.COM'', bytes ''*.Go''] = Some h \<and>
      build True [bytes ''eXAMPLE.com'', bytes ''*.gO''] = Some h \<and>
      checkPath h 0 (bytes ''www.GO'') 0 (length (bytes ''www.GO'')) = Some True \<and>
      checkPath h 0 (bytes ''WWW.go'') 0 (length (bytes ''WWW.go'')) = Some True"
    using h by blast
  from p case_folding_invariance
      [of "[]" "[]" "bytes ''zOO.COM''" "bytes ''zOO.COM''" "[bytes ''Zoo.com'', bytes ''@['']"]
  obtain g where g: "build True [bytes ''Zoo.com'', bytes ''@[''] = Some g"
    "checkPath g 0 (bytes ''zOO.COM'') 0 (length (bytes ''zOO.COM'')) =
       Some (\<exists>p\<in>set [bytes ''Zoo.com'', bytes ''@['']. caseVariant p (bytes ''zOO.COM''))"
    by blast
  from p case_folding_invariance
      [of "[]" "[]" "bytes ''`{''" "bytes ''`{''" "[bytes ''Zoo.com'', bytes ''@['']"]
  obtain g' where g': "build True [bytes ''Zoo.com'', bytes ''@[''] = Some g'"
    "checkPath g' 0 (bytes ''`{'') 0 (length (bytes ''`{'')) =
       Some (\<exists>p\<in>set [bytes ''Zoo.com'', bytes ''@['']. caseVariant p (bytes ''`{''))"
    by blast
  have "g' = g" using g(1) g'(1) by simp
  then have 2: "\<exists>h. build True [bytes ''Zoo.com'', bytes ''@[''] = Some h \<and>
      checkPath h 0 (bytes ''zOO.COM'') 0 (length (bytes ''zOO.COM'')) = Some True \<and>
      checkPath h 0 (bytes ''`{'') 0 (length (bytes ''`{'')) = Some False"
    using g g'(2) y n by simp
  have 3: "\<exists>h. build False [bytes ''Zoo.com'', bytes ''@[''] = Some h \<and>
      checkPath h 0 (bytes ''zOO.COM'') 0 (length (bytes ''zOO.COM'')) = Some False"
    using p d case_folding_invariance
      [of "[]" "[]" "bytes ''zOO.COM''" "bytes ''zOO.COM''" "[bytes ''Zoo.com'', bytes ''@['']"]
    by blast
  show ?thesis using 1 2 3 by blast
qed

text \<open>
  C5, as stated, fails for a glob-free pattern that contains the byte 1, the
  wildcard sentinel \<open>globChar\<close>: the node of that byte is stored under the
  sentinel's key with \<^verbatim>\<open>nodeChar = 1\<close>, and the fast path of \<^verbatim>\<open>checkPath\<close>
  returns \<^verbatim>\<open>false\<close> as soon as \<^verbatim>\<open>oneShot.nodeChar == globChar\<close>.
\<close>

theorem sentinel_pattern_counterexample:
  "build False [[1]] =
     Some [\<lparr>subtrees = Some [(1, 1)], oneShot = Some 1, isGlob = False, canMatch = False,
            hasGlobChild = False, nodeChar = 0, icase = False\<rparr>,
           \<lparr>subtrees = Some [], oneShot = None, isGlob = False, canMatch = True,
            hasGlobChild = False, nodeChar = 1, icase = False\<rparr>] \<and>
   checkPath
     [\<lparr>subtrees = Some [(1, 1)], oneShot = Some 1, isGlob = False, canMatch = False,
            hasGlobChild = False, nodeChar = 0, icase = False\<rparr>,
           \<lparr>subtrees = Some [], oneShot = None, isGlob = False, canMatch = True,
            hasGlobChild = False, nodeChar = 1, icase = False\<rparr>] 0 [1] 0 1 = Some False"
  by code_simp

text \<open>
  C5, amended. In a trie of either case mode, after any patterns \<open>ps\<close>, then
  \<open>p\<close>, then any patterns \<open>qs\<close> (with or without wildcards, extending \<open>p\<close> or
  not): the terminal node of \<open>p\<close>, reached from the root along the keys of
  \<open>p\<close>, is marked \<^verbatim>\<open>canMatch\<close>, for every pattern \<open>p\<close>; and for every
  glob-free \<open>p\<close> without the sentinel byte 1, \<^verbatim>\<open>checkPath(p)\<close> returns
  \<^verbatim>\<open>true\<close>.
\<close>

theorem inserted_pattern_persists:
  "(\<exists>h t. build ic (ps @ p # qs) = Some h \<and> walk h 0 (map (pathKey ic) p) = Some t \<and>
      canMatch (h ! t)) \<and>
   (42 \<notin> set p \<and> 1 \<notin> set p \<longrightarrow>
      (\<exists>h. build ic (ps @ p # qs) = Some h \<and> checkPath h 0 p 0 (length p) = Some True))"
  using persists [of p ic ps qs] terminal_persists [of ic ps p qs]
  by (auto simp add: globChar_def)

theorem inserted_pattern_persists_witness:
  "42 \<notin> set (bytes ''ab'') \<and> 1 \<notin> set (bytes ''ab'') \<and>
   (\<exists>h. build True ([bytes ''a*''] @ bytes ''ab'' # [bytes ''abc'', bytes ''a*c'']) = Some h \<and>
        checkPath h 0 (bytes ''ab'') 0 (length (bytes ''ab'')) = Some True)"
proof -
  have 1: "42 \<notin> set (bytes ''ab'')" and 2: "1 \<notin> set (bytes ''ab'')"
    by (simp_all add: bytes_def)
  show ?thesis
    using 1 2 inserted_pattern_persists
      [of True "[bytes ''a*'']" "bytes ''ab''" "[bytes ''abc'', bytes ''a*c'']"]
    by blast
qed

text \<open>
  C6. After any sequence of \<^verbatim>\<open>addPath\<close> calls on a fresh root, every node
  \<open>a\<close> of the store has a map with distinct keys, its \<^verbatim>\<open>oneShot\<close> is set
  exactly when the map has one entry, and then it is the child of that entry.
  One more iteration of \<^verbatim>\<open>addPath\<close> at a node with a single child, for a
  byte with another key, resets \<^verbatim>\<open>oneShot\<close> to \<^verbatim>\<open>nil\<close>.
\<close>

theorem oneShot_iff_single_child:
  assumes "build ic ps = Some h" "a < length h"
  shows "\<exists>m. subtrees (h ! a) = Some m \<and> distinct (map fst m) \<and>
           (oneShot (h ! a) \<noteq> None \<longleftrightarrow> length m = 1) \<and>
           (\<forall>k b. m = [(k, b)] \<longrightarrow> oneShot (h ! a) = Some b) \<and>
           (\<forall>k0 b0 b h' v. m = [(k0, b0)] \<and> pathKey ic b \<noteq> k0 \<and>
                addPath_body h 0 a b = Some (h', v) \<longrightarrow> oneShot (h' ! a) = None)"
proof -
  have inv: "inv_trie ic h" using build_inv [of ic ps] assms(1) by simp
  then have val: "inv_valid h" and os: "inv_oneShot h" and ic: "icase (h ! 0) = ic"
    using assms(2) by (auto simp add: inv_trie_def inv_icase_def)
  obtain m where m: "subtrees (h ! a) = Some m" "distinct (map fst m)"
    using inv_validD [OF val assms(2)] by metis
  have o: "oneShot (h ! a) = (case m of [(k, b)] \<Rightarrow> Some b | _ \<Rightarrow> None)"
    using os assms(2) m(1) by (simp add: inv_oneShot_def)
  have 1: "oneShot (h ! a) \<noteq> None \<longleftrightarrow> length m = 1"
    using o by (auto split: list.splits prod.splits)
  have 2: "\<forall>k b. m = [(k, b)] \<longrightarrow> oneShot (h ! a) = Some b"
    using o by simp
  have 3: "oneShot (h' ! a) = None"
    if "m = [(k0, b0)]" "pathKey ic b \<noteq> k0" "addPath_body h 0 a b = Some (h', v)"
    for k0 b0 b h' v
  proof -
    note f = addPath_body_fields' [OF val assms(2) m(1) that(3)]
    have "a < length h'" using f(2) assms(2) by (simp split: if_splits)
    then show ?thesis using f(4) [of a] that(1,2) ic by simp
  qed
  show ?thesis using m 1 2 3 by blast
qed

theorem oneShot_iff_single_child_witness:
  "\<exists>h. build False [bytes ''ab'', bytes ''ac''] = Some h \<and> 1 < length h \<and>
     oneShot (h ! 0) = Some 1 \<and> subtrees (h ! 0) = Some [(97, 1)] \<and>
     oneShot (h ! 1) = None \<and> subtrees (h ! 1) = Some [(98, 2), (99, 3)]"
proof -
  have b: "build False [bytes ''ab'', bytes ''ac''] =
     Some [\<lparr>subtrees = Some [(97, 1)], oneShot = Some 1, isGlob = False, canMatch = False,
            hasGlobChild = False, nodeChar = 0, icase = False\<rparr>,
           \<lparr>subtrees = Some [(98, 2), (99, 3)], oneShot = None, isGlob = False, canMatch = False,
            hasGlobChild = False, nodeChar = 97, icase = False\<rparr>,
           \<lparr>subtrees = Some [], oneShot = None, isGlob = False, canMatch = True,
            hasGlobChild = False, nodeChar = 98, icase = False\<rparr>,
           \<lparr>subtrees = Some [], oneShot = None, isGlob = False, canMatch = True,
            hasGlobChild = False, nodeChar = 99, icase = False\<rparr>]"
    by code_simp
  show ?thesis
    using oneShot_iff_single_child [OF b, of 0] oneShot_iff_single_child [OF b, of 1] b
    by simp
qed

text \<open>
  C7. \<^verbatim>\<open>addPath\<close> returns an error exactly when the map of the receiver is
  \<^verbatim>\<open>nil\<close>, and then the store is left as it was. \<^verbatim>\<open>newGlobPathNode\<close>
  gives the new node an empty map that is not \<^verbatim>\<open>nil\<close>, so building a trie
  from a fresh root never meets the error, and neither does any later
  \<^verbatim>\<open>addPath\<close> on the trie built.
\<close>

theorem addPath_error_iff_nil_subtrees:
  "((\<exists>e h'. addPath h gpn s = Some (Some e, h')) \<longleftrightarrow> subtrees (h ! gpn) = None) \<and>
   (subtrees (h ! gpn) = None \<longrightarrow> addPath h gpn s = Some (Some NilSubtrees, h)) \<and>
   (case newGlobPathNode h ic of (h1, a) \<Rightarrow> subtrees (h1 ! a)) = Some [] \<and>
   (\<exists>h1. build ic ps = Some h1 \<and> (\<exists>h2. addPath h1 0 s = Some (None, h2)))"
proof -
  have 1: "(\<exists>e h'. addPath h gpn s = Some (Some e, h')) \<longleftrightarrow> subtrees (h ! gpn) = None"
    by (auto simp add: addPath_def split: option.splits prod.splits)
  have 2: "subtrees (h ! gpn) = None \<longrightarrow> addPath h gpn s = Some (Some NilSubtrees, h)"
    by (simp add: addPath_def)
  have 3: "(case newGlobPathNode h ic of (h1, a) \<Rightarrow> subtrees (h1 ! a)) = Some []"
    by (simp add: newGlobPathNode_def)
  obtain h1 where h1: "build ic ps = Some h1" "inv_trie ic h1" using build_inv by blast
  then have "0 < length h1" by (simp add: inv_trie_def)
  then have "\<exists>h2. addPath h1 0 s = Some (None, h2)"
    using addPath_grows [OF h1(2), of 0 s] by blast
  then show ?thesis using 1 2 3 h1(1) by blast
qed

theorem addPath_error_iff_nil_subtrees_witness:
  "addPath [\<lparr>subtrees = None, oneShot = None, isGlob = False, canMatch = False,
            hasGlobChild = False, nodeChar = 0, icase = False\<rparr>] 0 (bytes ''a'') =
     Some (Some NilSubtrees,
       [\<lparr>subtrees = None, oneShot = None, isGlob = False, canMatch = False,
            hasGlobChild = False, nodeChar = 0, icase = False\<rparr>])"
  using addPath_error_iff_nil_subtrees
    [of "[\<lparr>subtrees = None, oneShot = None, isGlob = False, canMatch = False,
            hasGlobChild = False, nodeChar = 0, icase = False\<rparr>]" 0 "bytes ''a''" False "[]"]
  by simp

text \<open>
  C8. \<^verbatim>\<open>checkPath\<close> and \<^verbatim>\<open>globConsume\<close> never write to the trie: run with
  the store threaded through every call, they hand back the very store they
  were given, on every store (so every field of every node is as before) and
  every candidate, together with the result of the read-only functions.
\<close>

theorem queries_leave_trie_unchanged:
  "checkPathSt h gpn s index mlen = (checkPath h gpn s index mlen, h) \<and>
   globConsumeSt h g s index mlen = (globConsume h g s index mlen, h)"
  using threaded_aux [of h s index mlen] by (simp add: checkPathSt_def checkPath_def)

text \<open>
  C9. The signature codec round-trips: for every key, every target URL and
  every MAC, and every URL-safe encoding whose decoder inverts it,
  \<open>decode key (encode key url)\<close> succeeds and returns \<open>url\<close>; unpadded
  base64url is such an encoding. \<open>encode\<close> is a function of the key and the
  URL (and of the two parameters), so equal arguments give equal tokens.
\<close>

theorem codec_round_trip:
  "((\<forall>x. dec (enc x) = Some x) \<longrightarrow> decode mac dec key (encode mac enc key url) = Inr url) \<and>
   decode mac b64url_decode key (encode mac b64url_encode key url) = Inr url \<and>
   (key = key' \<and> url = url' \<longrightarrow> encode mac enc key url = encode mac enc key' url')"
  by (simp add: decode_def encode_def Let_def b64url_roundtrip)

theorem codec_round_trip_witness:
  "decode (\<lambda>k m. k @ m) b64url_decode (bytes ''0x24FEEDFACEDEADBEEFCAFE'')
     (encode (\<lambda>k m. k @ m) b64url_encode (bytes ''0x24FEEDFACEDEADBEEFCAFE'')
        (bytes ''http://www.google.com/images/srpr/logo11w.png'')) =
     Inr (bytes ''http://www.google.com/images/srpr/logo11w.png'') \<and>
   tokenURL (encode (\<lambda>k m. k @ m) b64url_encode (bytes ''0x24FEEDFACEDEADBEEFCAFE'')
        (bytes ''http://a.b/cd'')) = bytes ''aHR0cDovL2EuYi9jZA''"
proof -
  have r: "\<forall>x. b64url_decode (b64url_encode x) = Some x" by (simp add: b64url_roundtrip)
  have e: "tokenURL (encode (\<lambda>k m. k @ m) b64url_encode (bytes ''0x24FEEDFACEDEADBEEFCAFE'')
        (bytes ''http://a.b/cd'')) = bytes ''aHR0cDovL2EuYi9jZA''"
    by (simp add: encode_def b64url_encode_def bytes_def b64alphabet_def Let_def)
  show ?thesis
    using r e codec_round_trip [of b64url_decode b64url_encode "\<lambda>k m. k @ m"
        "bytes ''0x24FEEDFACEDEADBEEFCAFE''" "bytes ''http://www.google.com/images/srpr/logo11w.png''"]
    by blast
qed

text \<open>
  C10. \<^verbatim>\<open>checkPath\<close> and \<^verbatim>\<open>globConsume\<close> terminate on every store and every
  input: the recursion is well founded on every argument (the domain predicate
  of the three mutually recursive functions holds everywhere); each recursive
  call lowers \<open>callMeasure\<close>, three times the unconsumed length plus the rank
  of the function; \<^verbatim>\<open>globConsume\<close> is entered at the index \<open>i\<close> at which
  \<^verbatim>\<open>checkPath\<close> stands, and every \<^verbatim>\<open>checkPath\<close> call issued from the loop of
  \<^verbatim>\<open>globConsume\<close> at index \<open>i\<close> starts at \<open>i + 1\<close>; and within the bounds
  of the string the call returns a boolean.
\<close>

theorem checkPath_globConsume_terminate:
  "checkPath_loop_globConsume_globConsume_loop_dom x \<and>
   (checkPath_loop_globConsume_globConsume_loop_rel y x \<longrightarrow> callMeasure y < callMeasure x) \<and>
   (checkPath_loop_globConsume_globConsume_loop_rel (Inr (Inl (h', v, s', j, m')))
      (Inl (h, g, c, s, i, m)) \<longrightarrow> j = i \<and> i < m \<and> m' = m) \<and>
   (checkPath_loop_globConsume_globConsume_loop_rel (Inl (h', g', c', s', j, m'))
      (Inr (Inr (h, g, la, st, s, i, m))) \<longrightarrow> j = i + 1 \<and> i < m \<and> m' = m) \<and>
   (mlen \<le> length s \<longrightarrow>
      (\<exists>b. checkPath h gpn s index mlen = Some b) \<and> (\<exists>b. globConsume h gpn s index mlen = Some b))"
  using all_calls_terminate [of x] call_decreases [of y x]
    call_to_globConsume [of h' v s' j m' h g c s i m]
    call_from_globConsume [of h' g' c' s' j m' h g la st s i m]
    checkPath_loop_no_panic [of mlen s h gpn gpn index]
    globConsume_no_panic [of mlen s h gpn index]
  by (simp add: checkPath_def)

theorem checkPath_globConsume_terminate_witness:
  "\<exists>h. build False [bytes ''a*b''] = Some h \<and>
     checkPath_loop_globConsume_globConsume_loop_rel
       (Inl (h, 0, 1, bytes ''axb'', 0 + 1, 3)) (Inl (h, 0, 0, bytes ''axb'', 0, 3)) \<and>
     callMeasure (Inl (h, 0, 1, bytes ''axb'', 0 + 1, 3)) <
       callMeasure (Inl (h, 0, 0, bytes ''axb'', 0, 3)) \<and>
     checkPath_loop_globConsume_globConsume_loop_rel
       (Inr (Inl (h, 2, bytes ''axb'', 1, 3))) (Inl (h, 0, 1, bytes ''axb'', 1, 3)) \<and>
     callMeasure (Inr (Inl (h, 2, bytes ''axb'', 1, 3))) <
       callMeasure (Inl (h, 0, 1, bytes ''axb'', 1, 3)) \<and>
     checkPath_loop_globConsume_globConsume_loop_rel
       (Inr (Inr (h, 2, True, True, bytes ''axb'', 1, 3))) (Inr (Inl (h, 2, bytes ''axb'', 1, 3))) \<and>
     callMeasure (Inr (Inr (h, 2, True, True, bytes ''axb'', 1, 3))) <
       callMeasure (Inr (Inl (h, 2, bytes ''axb'', 1, 3))) \<and>
     checkPath_loop_globConsume_globConsume_loop_rel
       (Inr (Inr (h, 2, True, True, bytes ''axb'', 1 + 1, 3)))
       (Inr (Inr (h, 2, True, True, bytes ''axb'', 1, 3))) \<and>
     callMeasure (Inr (Inr (h, 2, True, True, bytes ''axb'', 1 + 1, 3))) <
       callMeasure (Inr (Inr (h, 2, True, True, bytes ''axb'', 1, 3))) \<and>
     checkPath_loop_globConsume_globConsume_loop_rel
       (Inl (h, 3, 3, bytes ''axb'', 2 + 1, 3)) (Inr (Inr (h, 2, True, True, bytes ''axb'', 2, 3))) \<and>
     callMeasure (Inl (h, 3, 3, bytes ''axb'', 2 + 1, 3)) <
       callMeasure (Inr (Inr (h, 2, True, True, bytes ''axb'', 2, 3))) \<and>
     checkPath_loop_globConsume_globConsume_loop_dom (Inl (h, 0, 0, bytes ''axb'', 0, 3)) \<and>
     globConsume h 2 (bytes ''axb'') 1 3 = Some True \<and>
     checkPath h 0 (bytes ''axb'') 0 3 = Some True \<and>
     checkPath h 0 (bytes ''axc'') 0 3 = Some False"
proof -
  let ?h = "[\<lparr>subtrees = Some [(97, 1)], oneShot = Some 1, isGlob = False, canMatch = False,
             hasGlobChild = False, nodeChar = 0, icase = False\<rparr>,
            \<lparr>subtrees = Some [(1, 2)], oneShot = Some 2, isGlob = False, canMatch = False,
             hasGlobChild = True, nodeChar = 97, icase = False\<rparr>,
            \<lparr>subtrees = Some [(98, 3)], oneShot = Some 3, isGlob = True, canMatch = False,
             hasGlobChild = False, nodeChar = 42, icase = False\<rparr>,
            \<lparr>subtrees = Some [], oneShot = None, isGlob = False, canMatch = True,
             hasGlobChild = False, nodeChar = 98, icase = False\<rparr>]"
  let ?s = "bytes ''axb''"
  let ?c0 = "Inl (?h, 0, 0, ?s, 0, 3)"
  let ?c1 = "Inl (?h, 0, 1, ?s, 0 + 1, 3)"
  let ?c1' = "Inl (?h, 0, 1, ?s, 1, 3)"
  let ?g = "Inr (Inl (?h, 2, ?s, 1, 3))"
  let ?l1 = "Inr (Inr (?h, 2, True, True, ?s, 1, 3))"
  let ?l2 = "Inr (Inr (?h, 2, True, True, ?s, 1 + 1, 3))"
  let ?l2' = "Inr (Inr (?h, 2, True, True, ?s, 2, 3))"
  let ?c3 = "Inl (?h, 3, 3, ?s, 2 + 1, 3)"
  have b: "build False [bytes ''a*b''] = Some ?h" by code_simp
  have r1: "checkPath_loop_globConsume_globConsume_loop_rel ?c1 ?c0"
    by (rule checkPath_loop_globConsume_globConsume_loop_rel.intros(3)
          [of 0 3 ?s 97 ?h 0 0 False 1])
       (simp_all add: foldCase_def globChar_def bytes_def)
  have r2: "checkPath_loop_globConsume_globConsume_loop_rel ?g ?c1'"
    by (rule checkPath_loop_globConsume_globConsume_loop_rel.intros(1)
          [of 1 3 ?s 120 ?h 0 1 2])
       (simp_all add: foldCase_def globChar_def bytes_def subtreeAt_def)
  have "checkPath_loop_globConsume_globConsume_loop_rel
      (Inr (Inr (?h, 2, oneShot (?h ! 2) \<noteq> None, oneShot (?h ! 2) \<noteq> None, ?s, 1, 3))) ?g"
    by (rule checkPath_loop_globConsume_globConsume_loop_rel.intros(4)) simp
  then have r3: "checkPath_loop_globConsume_globConsume_loop_rel ?l1 ?g" by simp
  have r4: "checkPath_loop_globConsume_globConsume_loop_rel ?l2 ?l1"
    by (rule checkPath_loop_globConsume_globConsume_loop_rel.intros(5)
          [of 1 3 ?s 120 ?h 2 True True True])
       (simp_all add: foldCase_def bytes_def)
  have r5: "checkPath_loop_globConsume_globConsume_loop_rel ?c3 ?l2'"
    by (rule checkPath_loop_globConsume_globConsume_loop_rel.intros(6)
          [of 2 3 ?s 98 ?h 2 True False 3])
       (simp_all add: foldCase_def bytes_def subtreeAt_def)
  have e: "globConsume ?h 2 ?s 1 3 = Some True" "checkPath ?h 0 ?s 0 3 = Some True"
    "checkPath ?h 0 (bytes ''axc'') 0 3 = Some False"
    by code_simp+
  have 1: "callMeasure ?c1 < callMeasure ?c0"
    using r1 checkPath_globConsume_terminate [of ?c0 ?c1] by blast
  have 2: "callMeasure ?g < callMeasure ?c1'"
    using r2 checkPath_globConsume_terminate [of ?c1' ?g ?h 2 ?s 1 3 ?h 0 1 ?s 1 3] by blast
  have 3: "callMeasure ?l1 < callMeasure ?g"
    using r3 checkPath_globConsume_terminate [of ?g ?l1] by blast
  have 4: "callMeasure ?l2 < callMeasure ?l1"
    using r4 checkPath_globConsume_terminate [of ?l1 ?l2] by blast
  have 5: "callMeasure ?c3 < callMeasure ?l2'"
    using r5 checkPath_globConsume_terminate
      [of ?l2' ?c3 ?h _ ?s "2 + 1" 3 ?h 2 _ ?s 2 3 3 3 True True 3 2 1]
    by blast
  have 6: "checkPath_loop_globConsume_globConsume_loop_dom ?c0"
    using checkPath_globConsume_terminate [of ?c0] by blast
  show ?thesis using b r1 r2 r3 r4 r5 e 1 2 3 4 5 6 by blast
qed

end
